theory Spec2Isabelle
  imports Main "HOL-Library.Word"
begin

unbundle bit_operations_syntax

section \<open>The directory-tree watch cache of inotify\_dtree.c\<close>

text \<open>
  The program keeps a cache of watched directories (watch descriptor and pathname),
  a list of root directories, and updates both from the inotify events it reads.
  The model below follows \<^verbatim>\<open>inotify/inotify_dtree.c\<close> function by function.
  \<^item> C strings are \<open>string\<close>s holding the characters before the terminating NUL (so a
    modelled string contains no NUL character); a fixed buffer of \<open>n\<close> bytes written
    by \<^verbatim>\<open>snprintf\<close> keeps at most \<open>n - 1\<close> characters.
  \<^item> The global variables are the fields of a state record that each function takes
    and returns; \<^verbatim>\<open>*inotifyFd\<close> and \<open>inotifyReadCnt\<close> are passed and returned beside
    it.
  \<^item> A function in which the process can end returns a sum: \<open>Inl\<close> with the way it
    ended and the state it ended in, or \<open>Inr\<close> with its result.
  \<^item> What the system answers (\<^verbatim>\<open>inotify_init\<close>, \<^verbatim>\<open>nftw\<close> with the
    \<^verbatim>\<open>inotify_add_watch\<close> of each callback, \<^verbatim>\<open>inotify_rm_watch\<close>, \<^verbatim>\<open>realloc\<close>,
    \<^verbatim>\<open>lstat\<close>, \<^verbatim>\<open>read\<close>) is an argument of the model; the calls that change
    something outside the process are recorded in a trace.
  \<^item> A buffer of events is the list of its records; \<^verbatim>\<open>read()\<close> on an inotify
    descriptor returns whole records.
  \<^item> Messages written by \<^verbatim>\<open>logMessage\<close>, \<^verbatim>\<open>printf\<close> and \<^verbatim>\<open>fprintf\<close> are not
    modelled, except the dump of the cache, which is recorded in the trace (the log
    file is taken to be open when a dump is made). The failures of \<^verbatim>\<open>sigaction\<close>
    and \<^verbatim>\<open>strdup\<close> are not modelled.
\<close>

subsection \<open>Constants of the system headers\<close>

definition PATH_MAX :: nat where
  "PATH_MAX = 4096"

definition NAME_MAX :: nat where
  "NAME_MAX = 255"

text \<open>\<^verbatim>\<open>sizeof(struct inotify_event)\<close>: four 32-bit fields before the name.\<close>

definition sizeof_inotify_event :: nat where
  "sizeof_inotify_event = 16"

definition INOTIFY_READ_BUF_LEN :: nat where
  "INOTIFY_READ_BUF_LEN = 100 * (sizeof_inotify_event + NAME_MAX + 1)"

text \<open>\<^verbatim>\<open>(size_t) -1\<close>, what \<^verbatim>\<open>return -1\<close> yields in a function returning \<^verbatim>\<open>size_t\<close>.\<close>

definition SIZE_MAX :: nat where
  "SIZE_MAX = 2 ^ 64 - 1"

definition IN_MOVED_FROM :: "32 word" where "IN_MOVED_FROM = 0x00000040"
definition IN_MOVED_TO :: "32 word" where "IN_MOVED_TO = 0x00000080"
definition IN_CREATE :: "32 word" where "IN_CREATE = 0x00000100"
definition IN_DELETE_SELF :: "32 word" where "IN_DELETE_SELF = 0x00000400"
definition IN_MOVE_SELF :: "32 word" where "IN_MOVE_SELF = 0x00000800"
definition IN_UNMOUNT :: "32 word" where "IN_UNMOUNT = 0x00002000"
definition IN_Q_OVERFLOW :: "32 word" where "IN_Q_OVERFLOW = 0x00004000"
definition IN_IGNORED :: "32 word" where "IN_IGNORED = 0x00008000"
definition IN_ONLYDIR :: "32 word" where "IN_ONLYDIR = 0x01000000"
definition IN_ISDIR :: "32 word" where "IN_ISDIR = 0x40000000"

subsection \<open>Data\<close>

text \<open>\<^verbatim>\<open>struct watch\<close>: a slot of the cache; \<open>wd = -1\<close> marks the slot unused.\<close>

record watch =
  wd :: int
  path :: string

text \<open>\<^verbatim>\<open>struct inotify_event\<close> as \<^verbatim>\<open>read()\<close> delivers it.\<close>

record inotify_event =
  ev_wd :: int
  ev_mask :: "32 word"
  ev_cookie :: "32 word"
  ev_len :: "32 word"
  ev_name :: string

text \<open>System calls with an effect outside the process, in the order they are made.\<close>

datatype action =
  A_close int
  | A_inotify_init
  | A_add_watch int string "32 word"
  | A_rm_watch int int
  | A_open_stop_file
  | A_dump "(nat \<times> watch) list"

text \<open>
  The global variables: \<open>wlCache\<close> with \<open>cacheSize = length wlCache\<close>,
  \<open>rootDirPaths\<close> with \<open>numRootDirs = length rootDirPaths\<close> (a \<^verbatim>\<open>NULL\<close> entry is
  \<open>None\<close>), \<open>ignoreRootDirs\<close>, and the option flags.
\<close>

record state =
  wlCache :: "watch list"
  rootDirPaths :: "string option list"
  ignoreRootDirs :: nat
  abortOnCacheProblem :: bool
  checkCache :: bool
  dumpCache :: bool
  trace :: "action list"

text \<open>How the process can end inside a function: \<^verbatim>\<open>exit()\<close>, \<^verbatim>\<open>abort()\<close>, or a read
  of memory that holds no value (an uninitialised variable, bytes past the data read).\<close>

datatype halt = Exit_Success | Exit_Failure | Aborted | Undefined_Read

type_synonym 'a result = "(halt \<times> state) + 'a"

text \<open>
  What the system answers during one step: \<^verbatim>\<open>inotify_init()\<close>, the callbacks
  \<^verbatim>\<open>nftw()\<close> makes for a pathname (each with the result of the
  \<^verbatim>\<open>inotify_add_watch()\<close> made in it), \<^verbatim>\<open>inotify_rm_watch()\<close>, \<^verbatim>\<open>realloc()\<close> and
  \<^verbatim>\<open>lstat()\<close>.
\<close>

record ftw_entry =
  ftw_path :: string
  ftw_isdir :: bool
  ftw_wd :: int
  ftw_enoent :: bool

datatype lstat_result = Lstat_Error | Lstat_Dir | Lstat_Other

record env =
  env_inotify_init :: int
  env_nftw :: "string \<Rightarrow> ftw_entry list"
  env_rm_watch_ok :: "int \<Rightarrow> bool"
  env_realloc_ok :: bool
  env_lstat :: "string \<Rightarrow> lstat_result"

subsection \<open>C string primitives\<close>

text \<open>\<^verbatim>\<open>snprintf(buf, size, "%s/%s", a, b)\<close> and \<^verbatim>\<open>snprintf(buf, size, "%s%s", a, b)\<close>.\<close>

definition snprintf_slash :: "nat \<Rightarrow> string \<Rightarrow> string \<Rightarrow> string" where
  "snprintf_slash n a b = take (n - 1) (a @ ''/'' @ b)"

definition snprintf_cat :: "nat \<Rightarrow> string \<Rightarrow> string \<Rightarrow> string" where
  "snprintf_cat n a b = take (n - 1) (a @ b)"

text \<open>\<^verbatim>\<open>strncpy(dst, src, PATH_MAX)\<close> into a \<^verbatim>\<open>char[PATH_MAX]\<close>: at most \<open>PATH_MAX\<close>
  characters are copied.\<close>

definition strncpy_path :: "string \<Rightarrow> string" where
  "strncpy_path src = take PATH_MAX src"

text \<open>\<^verbatim>\<open>strncmp(a, b, n) == 0\<close>.\<close>

definition strncmp_eq :: "string \<Rightarrow> string \<Rightarrow> nat \<Rightarrow> bool" where
  "strncmp_eq a b n \<longleftrightarrow> take n a = take n b"

text \<open>\<^verbatim>\<open>s[i]\<close> for \<open>i \<le> strlen(s)\<close>; at \<open>i = strlen(s)\<close> it is the terminator.\<close>

definition char_at :: "string \<Rightarrow> nat \<Rightarrow> char" where
  "char_at s i = (if i < length s then s ! i else CHR 0x00)"

text \<open>The test both subtree scans make: \<open>p\<close> is \<open>pre\<close> or lies below it.\<close>

definition prefix_match :: "string \<Rightarrow> string \<Rightarrow> bool" where
  "prefix_match pre p \<longleftrightarrow>
     strncmp_eq pre p (length pre) \<and>
     (char_at p (length pre) = CHR ''/'' \<or> char_at p (length pre) = CHR 0x00)"

subsection \<open>The watch cache\<close>

text \<open>A linear scan \<^verbatim>\<open>for (j = 0; j < n; j++) if (P(a[j])) return j; return -1;\<close>
  with \<open>None\<close> for \<open>-1\<close>.\<close>

fun first_index :: "('a \<Rightarrow> bool) \<Rightarrow> 'a list \<Rightarrow> nat option" where
  "first_index P [] = None"
| "first_index P (x # xs) = (if P x then Some 0 else map_option Suc (first_index P xs))"

definition findWatch :: "state \<Rightarrow> int \<Rightarrow> nat option" where
  "findWatch st w = first_index (\<lambda>e. wd e = w) (wlCache st)"

definition active_entries :: "watch list \<Rightarrow> (nat \<times> watch) list" where
  "active_entries c = filter (\<lambda>(j, e). wd e \<ge> 0) (zip [0..<length c] c)"

definition dumpCacheToLog :: "state \<Rightarrow> state" where
  "dumpCacheToLog st = st\<lparr>trace := trace st @ [A_dump (active_entries (wlCache st))]\<rparr>"

definition createStopFileAndAbort :: "state \<Rightarrow> halt \<times> state" where
  "createStopFileAndAbort st =
     (Aborted, dumpCacheToLog (st\<lparr>trace := trace st @ [A_open_stop_file]\<rparr>))"

definition findWatchChecked :: "state \<Rightarrow> int \<Rightarrow> (nat option) result" where
  "findWatchChecked st w =
     (case findWatch st w of
        Some slot \<Rightarrow> Inr (Some slot)
      | None \<Rightarrow>
          if abortOnCacheProblem st then Inl (createStopFileAndAbort st) else Inr None)"

definition empty_watch :: watch where
  "empty_watch = \<lparr>wd = -1, path = []\<rparr>"

definition markCacheSlotEmpty :: "state \<Rightarrow> nat \<Rightarrow> state" where
  "markCacheSlotEmpty st slot = st\<lparr>wlCache := (wlCache st)[slot := empty_watch]\<rparr>"

definition ALLOC_INCR :: nat where
  "ALLOC_INCR = 200"

definition findEmptyCacheSlot :: "env \<Rightarrow> state \<Rightarrow> (state \<times> nat) result" where
  "findEmptyCacheSlot e st =
     (case first_index (\<lambda>w. wd w = -1) (wlCache st) of
        Some j \<Rightarrow> Inr (st, j)
      | None \<Rightarrow>
          if \<not> env_realloc_ok e then Inl (Exit_Failure, st)
          else Inr (st\<lparr>wlCache := wlCache st @ replicate ALLOC_INCR empty_watch\<rparr>,
                    length (wlCache st)))"

definition addWatchToCache :: "env \<Rightarrow> state \<Rightarrow> int \<Rightarrow> string \<Rightarrow> (state \<times> nat) result" where
  "addWatchToCache e st w pathname =
     (case findEmptyCacheSlot e st of
        Inl h \<Rightarrow> Inl h
      | Inr (st1, slot) \<Rightarrow>
          Inr (st1\<lparr>wlCache := (wlCache st1)[slot := \<lparr>wd = w, path = strncpy_path pathname\<rparr>]\<rparr>,
               slot))"

definition pathnameToCacheSlot :: "state \<Rightarrow> string \<Rightarrow> nat option" where
  "pathnameToCacheSlot st pathname =
     first_index (\<lambda>e. wd e \<ge> 0 \<and> path e = pathname) (wlCache st)"

definition pathnameInCache :: "state \<Rightarrow> string \<Rightarrow> bool" where
  "pathnameInCache st pathname \<longleftrightarrow> pathnameToCacheSlot st pathname \<noteq> None"

definition checkCacheConsistency :: "env \<Rightarrow> state \<Rightarrow> state result" where
  "checkCacheConsistency e st =
     (if \<exists>w \<in> set (wlCache st). wd w \<ge> 0 \<and> env_lstat e (path w) = Lstat_Other
      then Inl (Exit_Failure, st) else Inr st)"

subsection \<open>The root directories\<close>

definition findRootDirPath :: "state \<Rightarrow> string \<Rightarrow> nat option" where
  "findRootDirPath st p = first_index (\<lambda>r. r = Some p) (rootDirPaths st)"

definition isRootDirPath :: "state \<Rightarrow> string \<Rightarrow> bool" where
  "isRootDirPath st p \<longleftrightarrow> findRootDirPath st p \<noteq> None"

definition zapRootDirPath :: "state \<Rightarrow> string \<Rightarrow> state result" where
  "zapRootDirPath st p =
     (case findRootDirPath st p of
        None \<Rightarrow> Inl (Exit_Failure, st)
      | Some j \<Rightarrow>
          (let st1 = st\<lparr>rootDirPaths := (rootDirPaths st)[j := None],
                        ignoreRootDirs := ignoreRootDirs st + 1\<rparr>
           in if ignoreRootDirs st1 = length (rootDirPaths st1)
              then Inl (Exit_Success, st1) else Inr st1))"

subsection \<open>Renaming a subtree in the cache\<close>

definition rewriteCachedPaths :: "state \<Rightarrow> string \<Rightarrow> string \<Rightarrow> string \<Rightarrow> string \<Rightarrow> state" where
  "rewriteCachedPaths st oldPathPrefix oldName newPathPrefix newName =
     (let fullPath = snprintf_slash PATH_MAX oldPathPrefix oldName;
          newPrefix = snprintf_slash PATH_MAX newPathPrefix newName;
          len = length fullPath
      in st\<lparr>wlCache :=
            map (\<lambda>e. if prefix_match fullPath (path e)
                      then e\<lparr>path := strncpy_path
                                 (snprintf_cat PATH_MAX newPrefix (drop len (path e)))\<rparr>
                      else e)
                (wlCache st)\<rparr>)"

subsection \<open>Walking a subtree\<close>

text \<open>The callback \<^verbatim>\<open>nftw()\<close> makes for each object it visits. \<open>dirCnt\<close> is only
  logged and is left out.\<close>

definition watch_flags :: "state \<Rightarrow> string \<Rightarrow> 32 word" where
  "watch_flags st pathname =
     (let flags = IN_CREATE OR IN_MOVED_FROM OR IN_MOVED_TO OR IN_DELETE_SELF
      in (if isRootDirPath st pathname then flags OR IN_MOVE_SELF else flags) OR IN_ONLYDIR)"

definition traverseTree :: "env \<Rightarrow> int \<Rightarrow> state \<Rightarrow> ftw_entry \<Rightarrow> state result" where
  "traverseTree e ifd st f =
     (if \<not> ftw_isdir f then Inr st
      else
        let st1 = st\<lparr>trace := trace st @
                     [A_add_watch ifd (ftw_path f) (watch_flags st (ftw_path f))]\<rparr>
        in if ftw_wd f = -1 then
             (if ftw_enoent f then Inr st1 else Inl (Exit_Failure, st1))
           else if findWatch st1 (ftw_wd f) \<noteq> None then Inr st1
           else (case addWatchToCache e st1 (ftw_wd f) (ftw_path f) of
                   Inl h \<Rightarrow> Inl h
                 | Inr (st2, slot) \<Rightarrow> Inr st2))"

fun nftw_calls :: "env \<Rightarrow> int \<Rightarrow> state \<Rightarrow> ftw_entry list \<Rightarrow> state result" where
  "nftw_calls e ifd st [] = Inr st"
| "nftw_calls e ifd st (f # fs) =
     (case traverseTree e ifd st f of
        Inl h \<Rightarrow> Inl h
      | Inr st1 \<Rightarrow> nftw_calls e ifd st1 fs)"

definition watchDir :: "env \<Rightarrow> state \<Rightarrow> int \<Rightarrow> string \<Rightarrow> state result" where
  "watchDir e st inotifyFd pathname = nftw_calls e inotifyFd st (env_nftw e pathname)"

definition watchSubtree :: "env \<Rightarrow> state \<Rightarrow> int \<Rightarrow> string \<Rightarrow> state result" where
  "watchSubtree e st inotifyFd p = watchDir e st inotifyFd p"

subsection \<open>Removing a subtree\<close>

text \<open>The scan of \<^verbatim>\<open>zapSubtree\<close> over the slots \<open>js\<close>; \<open>cnt = -1\<close> after a failed
  \<^verbatim>\<open>inotify_rm_watch()\<close>, which ends the scan.\<close>

fun zap_loop :: "env \<Rightarrow> int \<Rightarrow> string \<Rightarrow> nat list \<Rightarrow> state \<Rightarrow> int \<Rightarrow> state \<times> int" where
  "zap_loop e inotifyFd pn [] st cnt = (st, cnt)"
| "zap_loop e inotifyFd pn (j # js) st cnt =
     (let w = wlCache st ! j
      in if wd w \<ge> 0 \<and> prefix_match pn (path w) then
           (let st1 = st\<lparr>trace := trace st @ [A_rm_watch inotifyFd (wd w)]\<rparr>
            in if \<not> env_rm_watch_ok e (wd w) then (st1, -1)
               else zap_loop e inotifyFd pn js (markCacheSlotEmpty st1 j) (cnt + 1))
         else zap_loop e inotifyFd pn js st cnt)"

definition zapSubtree :: "env \<Rightarrow> state \<Rightarrow> int \<Rightarrow> string \<Rightarrow> state \<times> int" where
  "zapSubtree e st inotifyFd p = zap_loop e inotifyFd p [0..<length (wlCache st)] st 0"

subsection \<open>Rebuilding the cache\<close>

definition freeCache :: "state \<Rightarrow> state" where
  "freeCache st = st\<lparr>wlCache := []\<rparr>"

fun watch_roots :: "env \<Rightarrow> int \<Rightarrow> state \<Rightarrow> string option list \<Rightarrow> state result" where
  "watch_roots e inotifyFd st [] = Inr st"
| "watch_roots e inotifyFd st (None # rs) = watch_roots e inotifyFd st rs"
| "watch_roots e inotifyFd st (Some p # rs) =
     (case watchSubtree e st inotifyFd p of
        Inl h \<Rightarrow> Inl h
      | Inr st1 \<Rightarrow> watch_roots e inotifyFd st1 rs)"

text \<open>\<^verbatim>\<open>reinitialize(oldInotifyFd)\<close> returns the new descriptor; \<open>reinitCnt\<close> is only
  logged and is left out.\<close>

definition reinitialize :: "env \<Rightarrow> state \<Rightarrow> int \<Rightarrow> (state \<times> int) result" where
  "reinitialize e st oldInotifyFd =
     (let st1 = (if oldInotifyFd \<ge> 0 then st\<lparr>trace := trace st @ [A_close oldInotifyFd]\<rparr>
                 else st);
          st2 = st1\<lparr>trace := trace st1 @ [A_inotify_init]\<rparr>;
          inotifyFd = env_inotify_init e
      in if inotifyFd = -1 then Inl (Exit_Failure, st2)
         else (case watch_roots e inotifyFd (freeCache st2) (rootDirPaths st2) of
                 Inl h \<Rightarrow> Inl h
               | Inr st3 \<Rightarrow> Inr (st3, inotifyFd)))"

subsection \<open>Processing one event\<close>

definition event_size :: "inotify_event \<Rightarrow> nat" where
  "event_size ev = sizeof_inotify_event + unat (ev_len ev)"

text \<open>The end of \<^verbatim>\<open>processNextInotifyEvent\<close>: the optional consistency check and dump,
  then \<^verbatim>\<open>return evLen\<close>. The results carry the state, the value left in
  \<^verbatim>\<open>*inotifyFd\<close> and the \<^verbatim>\<open>size_t\<close> returned.\<close>

definition finish :: "env \<Rightarrow> state \<Rightarrow> int \<Rightarrow> nat \<Rightarrow> (state \<times> int \<times> nat) result" where
  "finish e st inotifyFd evLen =
     (case (if checkCache st then checkCacheConsistency e st else Inr st) of
        Inl h \<Rightarrow> Inl h
      | Inr st1 \<Rightarrow>
          Inr (if dumpCache st1 then dumpCacheToLog st1 else st1, inotifyFd, evLen))"

text \<open>\<^verbatim>\<open>*inotifyFd = reinitialize(*inotifyFd); return INOTIFY_READ_BUF_LEN;\<close>\<close>

definition reinit_and_discard :: "env \<Rightarrow> state \<Rightarrow> int \<Rightarrow> (state \<times> int \<times> nat) result" where
  "reinit_and_discard e st inotifyFd =
     (case reinitialize e st inotifyFd of
        Inl h \<Rightarrow> Inl h
      | Inr (st1, fd1) \<Rightarrow> Inr (st1, fd1, INOTIFY_READ_BUF_LEN))"

text \<open>A "moved from" event without its "moved to" event: the subtree left the
  monitored trees.\<close>

definition moved_out ::
  "env \<Rightarrow> state \<Rightarrow> int \<Rightarrow> inotify_event \<Rightarrow> nat \<Rightarrow> nat \<Rightarrow> (state \<times> int \<times> nat) result" where
  "moved_out e st inotifyFd ev evCacheSlot evLen =
     (let fullPath = snprintf_slash (PATH_MAX + NAME_MAX)
                       (path (wlCache st ! evCacheSlot)) (ev_name ev)
      in case zapSubtree e st inotifyFd fullPath of
           (st1, cnt) \<Rightarrow>
             if cnt = -1 then reinit_and_discard e st1 inotifyFd
             else finish e st1 inotifyFd evLen)"

text \<open>
  The branch for \<^verbatim>\<open>IN_MOVED_FROM | IN_ISDIR\<close>. \<open>rest\<close> holds the records that follow
  \<open>ev\<close> in the buffer and \<open>bufSize\<close> the bytes from \<open>ev\<close> to the end of the data read;
  \<^verbatim>\<open>(char *) nextEv < buf + bufSize\<close> is \<open>int evLen < bufSize\<close>.
\<close>

definition moved_from ::
  "env \<Rightarrow> state \<Rightarrow> int \<Rightarrow> inotify_event \<Rightarrow> inotify_event list \<Rightarrow> int \<Rightarrow> bool \<Rightarrow> nat \<Rightarrow> nat
     \<Rightarrow> (state \<times> int \<times> nat) result" where
  "moved_from e st inotifyFd ev rest bufSize firstTry evCacheSlot evLen =
     (if int evLen < bufSize \<and> rest = [] then Inl (Undefined_Read, st)
      else if int evLen < bufSize \<and> ev_mask (hd rest) AND IN_MOVED_TO \<noteq> 0 \<and>
              ev_cookie (hd rest) = ev_cookie ev then
        (let nextEv = hd rest
         in case findWatchChecked st (ev_wd nextEv) of
              Inl h \<Rightarrow> Inl h
            | Inr None \<Rightarrow> reinit_and_discard e st inotifyFd
            | Inr (Some nextEvCacheSlot) \<Rightarrow>
                finish e
                  (rewriteCachedPaths st (path (wlCache st ! evCacheSlot)) (ev_name ev)
                     (path (wlCache st ! nextEvCacheSlot)) (ev_name nextEv))
                  inotifyFd (evLen + (sizeof_inotify_event + unat (ev_len nextEv))))
      else if int evLen < bufSize \<or> \<not> firstTry then
        moved_out e st inotifyFd ev evCacheSlot evLen
      else Inr (st, inotifyFd, SIZE_MAX))"

text \<open>The chain of tests on the mask. \<open>evCacheSlot\<close> is \<open>None\<close> when the lookup was
  skipped and the variable holds no value.\<close>

definition dispatch_event ::
  "env \<Rightarrow> state \<Rightarrow> int \<Rightarrow> inotify_event \<Rightarrow> inotify_event list \<Rightarrow> int \<Rightarrow> bool \<Rightarrow> nat option
     \<Rightarrow> (state \<times> int \<times> nat) result" where
  "dispatch_event e st inotifyFd ev rest bufSize firstTry evCacheSlot =
     (let evLen = event_size ev; m = ev_mask ev
      in if m AND IN_ISDIR \<noteq> 0 \<and> m AND (IN_CREATE OR IN_MOVED_TO) \<noteq> 0 then
           (case evCacheSlot of
              None \<Rightarrow> Inl (Undefined_Read, st)
            | Some slot \<Rightarrow>
                (let fullPath = snprintf_slash (PATH_MAX + NAME_MAX)
                                  (path (wlCache st ! slot)) (ev_name ev)
                 in if \<not> pathnameInCache st fullPath then
                      (case watchSubtree e st inotifyFd fullPath of
                         Inl h \<Rightarrow> Inl h
                       | Inr st1 \<Rightarrow> finish e st1 inotifyFd evLen)
                    else finish e st inotifyFd evLen))
         else if m AND IN_DELETE_SELF \<noteq> 0 then
           (case evCacheSlot of
              None \<Rightarrow> Inl (Undefined_Read, st)
            | Some slot \<Rightarrow>
                (case (if isRootDirPath st (path (wlCache st ! slot))
                       then zapRootDirPath st (path (wlCache st ! slot)) else Inr st) of
                   Inl h \<Rightarrow> Inl h
                 | Inr st1 \<Rightarrow> finish e (markCacheSlotEmpty st1 slot) inotifyFd evLen))
         else if m AND (IN_MOVED_FROM OR IN_ISDIR) = (IN_MOVED_FROM OR IN_ISDIR) then
           (case evCacheSlot of
              None \<Rightarrow> Inl (Undefined_Read, st)
            | Some slot \<Rightarrow> moved_from e st inotifyFd ev rest bufSize firstTry slot evLen)
         else if m AND IN_Q_OVERFLOW \<noteq> 0 then
           (case reinitialize e st inotifyFd of
              Inl h \<Rightarrow> Inl h
            | Inr (st1, fd1) \<Rightarrow> finish e st1 fd1 INOTIFY_READ_BUF_LEN)
         else if m AND IN_UNMOUNT \<noteq> 0 then
           (case evCacheSlot of
              None \<Rightarrow> Inl (Undefined_Read, st)
            | Some slot \<Rightarrow> finish e (markCacheSlotEmpty st slot) inotifyFd evLen)
         else if m AND IN_MOVE_SELF \<noteq> 0 then
           (case evCacheSlot of
              None \<Rightarrow> Inl (Undefined_Read, st)
            | Some slot \<Rightarrow>
                if isRootDirPath st (path (wlCache st ! slot)) then
                  (case zapRootDirPath st (path (wlCache st ! slot)) of
                     Inl h \<Rightarrow> Inl h
                   | Inr st1 \<Rightarrow>
                       (case zapSubtree e st1 inotifyFd (path (wlCache st1 ! slot)) of
                          (st2, cnt) \<Rightarrow>
                            if cnt = -1 then reinit_and_discard e st2 inotifyFd
                            else finish e st2 inotifyFd evLen))
                else finish e st inotifyFd evLen)
         else finish e st inotifyFd evLen)"

definition processNextInotifyEvent ::
  "env \<Rightarrow> state \<Rightarrow> int \<Rightarrow> inotify_event \<Rightarrow> inotify_event list \<Rightarrow> int \<Rightarrow> bool
     \<Rightarrow> (state \<times> int \<times> nat) result" where
  "processNextInotifyEvent e st inotifyFd ev rest bufSize firstTry =
     (if ev_wd ev \<noteq> -1 \<and> ev_mask ev AND IN_IGNORED = 0 then
        (case findWatchChecked st (ev_wd ev) of
           Inl h \<Rightarrow> Inl h
         | Inr None \<Rightarrow> reinit_and_discard e st inotifyFd
         | Inr (Some evCacheSlot) \<Rightarrow>
             dispatch_event e st inotifyFd ev rest bufSize firstTry (Some evCacheSlot))
      else dispatch_event e st inotifyFd ev rest bufSize firstTry None)"

subsection \<open>Processing a buffer of events\<close>

text \<open>What a \<^verbatim>\<open>read()\<close> from the inotify descriptor returns: \<open>-1\<close> with \<^verbatim>\<open>errno\<close>
  \<^verbatim>\<open>EINTR\<close> or another error, or whole records (none of them: \<open>0\<close>).\<close>

datatype read_result = Read_Error | Read_EINTR | Read_Data "inotify_event list"

definition buf_bytes :: "inotify_event list \<Rightarrow> nat" where
  "buf_bytes evs = sum_list (map event_size evs)"

text \<open>\<^verbatim>\<open>int evLen = processNextInotifyEvent(...)\<close>: the \<^verbatim>\<open>size_t\<close> result converted to a
  32-bit \<^verbatim>\<open>int\<close>.\<close>

definition int_of_size_t :: "nat \<Rightarrow> int" where
  "int_of_size_t n =
     (let m = n mod 2 ^ 32 in if m < 2 ^ 31 then int m else int m - 2 ^ 32)"

text \<open>\<^verbatim>\<open>evp += evLen\<close>: the records that start at the new \<open>evp\<close>. When \<open>evp\<close> ends
  beyond the last record or inside one, no record starts there.\<close>

fun drop_bytes :: "nat \<Rightarrow> inotify_event list \<Rightarrow> inotify_event list" where
  "drop_bytes n [] = []"
| "drop_bytes n (ev # evs) =
     (if n = 0 then ev # evs
      else if event_size ev \<le> n then drop_bytes (n - event_size ev) evs
      else [])"

text \<open>The result of the next \<^verbatim>\<open>read()\<close>; when the list of results is used up, nothing
  more arrives and the alarm interrupts the read.\<close>

definition next_read :: "read_result list \<Rightarrow> read_result \<times> read_result list" where
  "next_read reads = (case reads of [] \<Rightarrow> (Read_EINTR, []) | r # rs \<Rightarrow> (r, rs))"

text \<open>
  The \<^verbatim>\<open>for\<close> loop of \<^verbatim>\<open>processInotifyEvents\<close>. \<open>evs\<close> are the records from \<open>evp\<close>
  on, \<open>avail\<close> is \<^verbatim>\<open>buf + numRead - evp\<close>, \<open>cnt\<close> is the global \<open>inotifyReadCnt\<close>
  (only this function changes it), \<open>envs k\<close> is what the system answers during step
  \<open>k\<close>. The loop runs on fuel: \<open>None\<close> means the fuel ran out. After the secondary
  read the source tests \<^verbatim>\<open>errno != -1\<close>, which always holds, so \<open>nr\<close> is added to
  \<open>numRead\<close> and the read is counted also when \<open>nr\<close> is \<open>-1\<close>.
\<close>

fun event_loop ::
  "nat \<Rightarrow> (nat \<Rightarrow> env) \<Rightarrow> nat \<Rightarrow> state \<Rightarrow> int \<Rightarrow> nat \<Rightarrow> inotify_event list \<Rightarrow> int \<Rightarrow> bool
     \<Rightarrow> read_result list \<Rightarrow> (state \<times> int \<times> nat) result option" where
  "event_loop 0 envs k st inotifyFd cnt evs avail firstTry reads = None"
| "event_loop (Suc fuel) envs k st inotifyFd cnt evs avail firstTry reads =
     (if \<not> 0 < avail then Some (Inr (st, inotifyFd, cnt))
      else
        (case evs of
           [] \<Rightarrow> Some (Inl (Undefined_Read, st))
         | ev # rest \<Rightarrow>
             (case processNextInotifyEvent (envs k) st inotifyFd ev rest avail firstTry of
                Inl h \<Rightarrow> Some (Inl h)
              | Inr (st1, fd1, r) \<Rightarrow>
                  (let evLen = int_of_size_t r
                   in if evLen > 0 then
                        event_loop fuel envs (Suc k) st1 fd1 cnt (drop_bytes (nat evLen) evs)
                          (avail - evLen) True reads
                      else
                        (case next_read reads of
                           (Read_Error, rs) \<Rightarrow> Some (Inl (Exit_Failure, st1))
                         | (Read_EINTR, rs) \<Rightarrow>
                             event_loop fuel envs (Suc k) st1 fd1 (cnt + 1) evs (avail - 1)
                               False rs
                         | (Read_Data new, rs) \<Rightarrow>
                             if new = [] then Some (Inl (Exit_Failure, st1))
                             else if avail \<noteq> int (buf_bytes evs)
                             then Some (Inl (Undefined_Read, st1))
                             else event_loop fuel envs (Suc k) st1 fd1 (cnt + 1) (evs @ new)
                                    (avail + int (buf_bytes new)) False rs)))))"

definition processInotifyEvents ::
  "nat \<Rightarrow> (nat \<Rightarrow> env) \<Rightarrow> state \<Rightarrow> int \<Rightarrow> nat \<Rightarrow> read_result list
     \<Rightarrow> (state \<times> int \<times> nat) result option" where
  "processInotifyEvents fuel envs st inotifyFd cnt reads =
     (case next_read reads of
        (Read_Error, rs) \<Rightarrow> Some (Inl (Exit_Failure, st))
      | (Read_EINTR, rs) \<Rightarrow> Some (Inl (Exit_Failure, st))
      | (Read_Data evs, rs) \<Rightarrow>
          if evs = [] then Some (Inl (Exit_Failure, st))
          else event_loop fuel envs 0 st inotifyFd (cnt + 1) evs (int (buf_bytes evs)) True rs)"

section \<open>Notions used to state the properties\<close>

text \<open>\<open>p\<close> is \<open>pre\<close> itself or \<open>pre\<close> followed by \<open>/\<close> and more: the prefix match
  "delimited by \<open>/\<close> or end of string".\<close>

definition lies_under :: "string \<Rightarrow> string \<Rightarrow> bool" where
  "lies_under pre p \<longleftrightarrow> p = pre \<or> take (Suc (length pre)) p = pre @ ''/''"

text \<open>The path \<open>p\<close> after the directory \<open>old\<close> has become \<open>new\<close>: the prefix replaced,
  the suffix kept.\<close>

definition renamed :: "string \<Rightarrow> string \<Rightarrow> string \<Rightarrow> string" where
  "renamed old new p = (if lies_under old p then new @ drop (length old) p else p)"

text \<open>The pathnames of the slots in use.\<close>

definition active_paths :: "state \<Rightarrow> string list" where
  "active_paths st = map path (filter (\<lambda>w. wd w \<ge> 0) (wlCache st))"

text \<open>\<open>ignoreRootDirs\<close> counts the zapped entries of \<open>rootDirPaths\<close>; it holds after
  \<^verbatim>\<open>copyRootDirPaths\<close> (no entry zapped, the counter 0) and every zap keeps it.\<close>

definition roots_inv :: "state \<Rightarrow> bool" where
  "roots_inv st \<longleftrightarrow> ignoreRootDirs st = length (filter (\<lambda>r. r = None) (rootDirPaths st))"

text \<open>The state a step ends in, whether it returns or the process ends in it.\<close>

definition final_state :: "(state \<times> int \<times> nat) result \<Rightarrow> state" where
  "final_state r = (case r of Inl (h, st) \<Rightarrow> st | Inr (st, fd, n) \<Rightarrow> st)"

text \<open>An event for a watch of ours (\<^verbatim>\<open>wd != -1\<close>, not \<^verbatim>\<open>IN_IGNORED\<close>) that reaches the
  branch for \<^verbatim>\<open>IN_MOVED_FROM | IN_ISDIR\<close>: both bits set and no earlier test of the
  chain true.\<close>

definition dir_moved_from :: "inotify_event \<Rightarrow> bool" where
  "dir_moved_from ev \<longleftrightarrow>
     ev_wd ev \<noteq> -1 \<and> ev_mask ev AND IN_IGNORED = 0 \<and>
     ev_mask ev AND (IN_MOVED_FROM OR IN_ISDIR) = (IN_MOVED_FROM OR IN_ISDIR) \<and>
     ev_mask ev AND (IN_CREATE OR IN_MOVED_TO) = 0 \<and>
     ev_mask ev AND IN_DELETE_SELF = 0"

text \<open>The record \<open>nextEv\<close> is the "moved to" half of \<open>ev\<close>: \<^verbatim>\<open>IN_MOVED_TO\<close> and the same
  cookie.\<close>

definition next_matches :: "inotify_event \<Rightarrow> inotify_event \<Rightarrow> bool" where
  "next_matches ev nextEv \<longleftrightarrow>
     ev_mask nextEv AND IN_MOVED_TO \<noteq> 0 \<and> ev_cookie nextEv = ev_cookie ev"

text \<open>An event for a watch of ours that reaches the branch for a new directory:
  \<^verbatim>\<open>IN_ISDIR\<close> with \<^verbatim>\<open>IN_CREATE\<close> or \<^verbatim>\<open>IN_MOVED_TO\<close>.\<close>

definition dir_created :: "inotify_event \<Rightarrow> bool" where
  "dir_created ev \<longleftrightarrow>
     ev_wd ev \<noteq> -1 \<and> ev_mask ev AND IN_IGNORED = 0 \<and>
     ev_mask ev AND IN_ISDIR \<noteq> 0 \<and> ev_mask ev AND (IN_CREATE OR IN_MOVED_TO) \<noteq> 0"

text \<open>The queue overflow event as the kernel sends it: \<^verbatim>\<open>wd = -1\<close> and the mask
  \<^verbatim>\<open>IN_Q_OVERFLOW\<close>.\<close>

definition queue_overflow :: "inotify_event \<Rightarrow> bool" where
  "queue_overflow ev \<longleftrightarrow> ev_wd ev = -1 \<and> ev_mask ev = IN_Q_OVERFLOW"

text \<open>The kernel pads a name to a multiple of the header size, so \<open>len\<close> is at most
  \<open>NAME_MAX + 1\<close>.\<close>

definition kernel_event :: "inotify_event \<Rightarrow> bool" where
  "kernel_event ev \<longleftrightarrow> unat (ev_len ev) \<le> NAME_MAX + 1"

fun read_events :: "read_result \<Rightarrow> inotify_event list" where
  "read_events (Read_Data evs) = evs"
| "read_events Read_Error = []"
| "read_events Read_EINTR = []"

text \<open>All records the later reads deliver.\<close>

definition pending_events :: "read_result list \<Rightarrow> inotify_event list" where
  "pending_events reads = concat (map read_events reads)"

text \<open>A lookup of a watch descriptor made by the step fails: the lookup for the event
  itself, or, for a directory "moved from" event, the lookup for the matching "moved
  to" event that follows it.\<close>

definition cache_miss :: "state \<Rightarrow> inotify_event \<Rightarrow> inotify_event list \<Rightarrow> int \<Rightarrow> bool" where
  "cache_miss st ev rest bufSize \<longleftrightarrow>
     (ev_wd ev \<noteq> -1 \<and> ev_mask ev AND IN_IGNORED = 0 \<and> findWatch st (ev_wd ev) = None) \<or>
     (dir_moved_from ev \<and> findWatch st (ev_wd ev) \<noteq> None \<and>
      int (event_size ev) < bufSize \<and> rest \<noteq> [] \<and> next_matches ev (hd rest) \<and>
      findWatch st (ev_wd (hd rest)) = None)"

text \<open>The directories a walk of every non-zapped root visits, in the order of the
  walks.\<close>

fun walked_roots :: "env \<Rightarrow> string option list \<Rightarrow> ftw_entry list" where
  "walked_roots e [] = []"
| "walked_roots e (None # rs) = walked_roots e rs"
| "walked_roots e (Some p # rs) = filter ftw_isdir (env_nftw e p) @ walked_roots e rs"

definition walked_entries :: "env \<Rightarrow> state \<Rightarrow> ftw_entry list" where
  "walked_entries e st = walked_roots e (rootDirPaths st)"

text \<open>The action is an \<^verbatim>\<open>inotify_add_watch()\<close> on the descriptor \<open>fd\<close>.\<close>

fun added_watch :: "int \<Rightarrow> action \<Rightarrow> bool" where
  "added_watch fd (A_add_watch fd' p m) = (fd' = fd)"
| "added_watch fd a = False"

text \<open>The slot a walk makes for a visited directory.\<close>

definition entry_of :: "ftw_entry \<Rightarrow> watch" where
  "entry_of f = \<lparr>wd = ftw_wd f, path = strncpy_path (ftw_path f)\<rparr>"

text \<open>What a walk may do to the state: the roots stay, the trace grows by
  \<^verbatim>\<open>inotify_add_watch()\<close> calls on \<open>fd\<close>, and no slot in use is lost.\<close>

definition walk_step :: "int \<Rightarrow> state \<Rightarrow> state \<Rightarrow> bool" where
  "walk_step fd st st1 \<longleftrightarrow>
     rootDirPaths st1 = rootDirPaths st \<and>
     (\<exists>adds. trace st1 = trace st @ adds \<and> (\<forall>a\<in>set adds. added_watch fd a)) \<and>
     (\<forall>w\<in>set (wlCache st). wd w \<noteq> -1 \<longrightarrow> w \<in> set (wlCache st1))"

section \<open>Concrete inputs\<close>

text \<open>A tree \<open>/r\<close> with the directories \<open>A\<close>, \<open>A/C\<close> and \<open>AB\<close>.\<close>

definition tree_state :: state where
  "tree_state =
     \<lparr>wlCache = [\<lparr>wd = 1, path = ''/r''\<rparr>, \<lparr>wd = 2, path = ''/r/A''\<rparr>,
                 \<lparr>wd = 3, path = ''/r/A/C''\<rparr>, \<lparr>wd = 4, path = ''/r/AB''\<rparr>],
      rootDirPaths = [Some ''/r''], ignoreRootDirs = 0, abortOnCacheProblem = False,
      checkCache = False, dumpCache = False, trace = []\<rparr>"

text \<open>A system in which every call succeeds and a walk of \<open>/r\<close> finds \<open>/r\<close> and
  \<open>/r/B\<close>.\<close>

definition quiet_env :: env where
  "quiet_env =
     \<lparr>env_inotify_init = 5,
      env_nftw = (\<lambda>p. if p = ''/r''
                       then [\<lparr>ftw_path = ''/r'', ftw_isdir = True, ftw_wd = 1, ftw_enoent = False\<rparr>,
                             \<lparr>ftw_path = ''/r/B'', ftw_isdir = True, ftw_wd = 2, ftw_enoent = False\<rparr>]
                       else []),
      env_rm_watch_ok = (\<lambda>w. True), env_realloc_ok = True, env_lstat = (\<lambda>p. Lstat_Dir)\<rparr>"

definition moved_from_A :: inotify_event where
  "moved_from_A = \<lparr>ev_wd = 1, ev_mask = IN_MOVED_FROM OR IN_ISDIR, ev_cookie = 7,
                   ev_len = 16, ev_name = ''A''\<rparr>"

definition moved_to_B :: inotify_event where
  "moved_to_B = \<lparr>ev_wd = 1, ev_mask = IN_MOVED_TO OR IN_ISDIR, ev_cookie = 7,
                 ev_len = 16, ev_name = ''B''\<rparr>"

definition created_Z :: inotify_event where
  "created_Z = \<lparr>ev_wd = 1, ev_mask = IN_CREATE OR IN_ISDIR, ev_cookie = 0,
                ev_len = 16, ev_name = ''Z''\<rparr>"

text \<open>A cached directory whose pathname has \<open>PATH_MAX - 1\<close> characters.\<close>

definition long_state :: state where
  "long_state =
     \<lparr>wlCache = [\<lparr>wd = 1, path = ''/r''\<rparr>, \<lparr>wd = 2, path = ''/r/a''\<rparr>,
                 \<lparr>wd = 3, path = ''/r/a/'' @ replicate 4090 CHR ''b''\<rparr>],
      rootDirPaths = [Some ''/r''], ignoreRootDirs = 0, abortOnCacheProblem = False,
      checkCache = False, dumpCache = False, trace = []\<rparr>"

text \<open>Two roots, one inside the other: \<open>/a\<close> and \<open>/a/b\<close>.\<close>

definition nested_state :: state where
  "nested_state =
     \<lparr>wlCache = [\<lparr>wd = 1, path = ''/a''\<rparr>, \<lparr>wd = 2, path = ''/a/b''\<rparr>],
      rootDirPaths = [Some ''/a'', Some ''/a/b''], ignoreRootDirs = 0,
      abortOnCacheProblem = False, checkCache = False, dumpCache = False, trace = []\<rparr>"

definition moved_from_b :: inotify_event where
  "moved_from_b = \<lparr>ev_wd = 1, ev_mask = IN_MOVED_FROM OR IN_ISDIR, ev_cookie = 9,
                   ev_len = 16, ev_name = ''b''\<rparr>"

definition moved_to_c :: inotify_event where
  "moved_to_c = \<lparr>ev_wd = 1, ev_mask = IN_MOVED_TO OR IN_ISDIR, ev_cookie = 9,
                 ev_len = 16, ev_name = ''c''\<rparr>"

definition deleted_self_1 :: inotify_event where
  "deleted_self_1 = \<lparr>ev_wd = 1, ev_mask = IN_DELETE_SELF, ev_cookie = 0,
                     ev_len = 0, ev_name = ''''\<rparr>"

definition moved_from_a :: inotify_event where
  "moved_from_a = \<lparr>ev_wd = 1, ev_mask = IN_MOVED_FROM OR IN_ISDIR, ev_cookie = 11,
                   ev_len = 16, ev_name = ''a''\<rparr>"

definition moved_to_cc :: inotify_event where
  "moved_to_cc = \<lparr>ev_wd = 1, ev_mask = IN_MOVED_TO OR IN_ISDIR, ev_cookie = 11,
                  ev_len = 16, ev_name = ''cc''\<rparr>"

text \<open>The same tree when the cache has lost the entry of the watch \<open>1\<close>.\<close>

definition stale_state :: state where
  "stale_state =
     \<lparr>wlCache = [\<lparr>wd = 8, path = ''/r''\<rparr>, \<lparr>wd = 9, path = ''/r/old''\<rparr>],
      rootDirPaths = [Some ''/r''], ignoreRootDirs = 0, abortOnCacheProblem = False,
      checkCache = False, dumpCache = False, trace = []\<rparr>"

definition created_AB :: inotify_event where
  "created_AB = \<lparr>ev_wd = 1, ev_mask = IN_CREATE OR IN_ISDIR, ev_cookie = 0,
                 ev_len = 16, ev_name = ''AB''\<rparr>"

text \<open>The directory \<open>/r/x\<close> with its child \<open>b\<close> is renamed onto the empty directory
  \<open>/r/a\<close>, which \<^verbatim>\<open>rename()\<close> replaces.\<close>

definition target_state :: state where
  "target_state =
     \<lparr>wlCache = [\<lparr>wd = 1, path = ''/r''\<rparr>, \<lparr>wd = 2, path = ''/r/x''\<rparr>,
                 \<lparr>wd = 3, path = ''/r/x/b''\<rparr>, \<lparr>wd = 4, path = ''/r/a''\<rparr>],
      rootDirPaths = [Some ''/r''], ignoreRootDirs = 0, abortOnCacheProblem = False,
      checkCache = False, dumpCache = False, trace = []\<rparr>"

definition moved_from_x :: inotify_event where
  "moved_from_x = \<lparr>ev_wd = 1, ev_mask = IN_MOVED_FROM OR IN_ISDIR, ev_cookie = 5,
                   ev_len = 16, ev_name = ''x''\<rparr>"

definition moved_to_a :: inotify_event where
  "moved_to_a = \<lparr>ev_wd = 1, ev_mask = IN_MOVED_TO OR IN_ISDIR, ev_cookie = 5,
                 ev_len = 16, ev_name = ''a''\<rparr>"

definition overflow_event :: inotify_event where
  "overflow_event = \<lparr>ev_wd = -1, ev_mask = IN_Q_OVERFLOW, ev_cookie = 0,
                     ev_len = 0, ev_name = ''''\<rparr>"

text \<open>A directory whose pathname has \<open>PATH_MAX - 3\<close> characters, and its child \<open>k\<close>.
  Its other child \<open>kk\<close> has a pathname of \<open>PATH_MAX\<close> characters and is not cached.\<close>

definition deep_state :: state where
  "deep_state =
     \<lparr>wlCache = [\<lparr>wd = 1, path = ''/'' @ replicate 4092 CHR ''d''\<rparr>,
                 \<lparr>wd = 2, path = ''/'' @ replicate 4092 CHR ''d'' @ ''/k''\<rparr>],
      rootDirPaths = [Some ''/''], ignoreRootDirs = 0, abortOnCacheProblem = False,
      checkCache = False, dumpCache = False, trace = []\<rparr>"

definition moved_from_kk :: inotify_event where
  "moved_from_kk = \<lparr>ev_wd = 1, ev_mask = IN_MOVED_FROM OR IN_ISDIR, ev_cookie = 13,
                    ev_len = 16, ev_name = ''kk''\<rparr>"

definition moved_to_m :: inotify_event where
  "moved_to_m = \<lparr>ev_wd = 1, ev_mask = IN_MOVED_TO OR IN_ISDIR, ev_cookie = 13,
                 ev_len = 16, ev_name = ''m''\<rparr>"

section \<open>Auxiliary facts\<close>

lemmas in_mask_defs =
  IN_MOVED_FROM_def IN_MOVED_TO_def IN_CREATE_def IN_DELETE_SELF_def IN_MOVE_SELF_def
  IN_UNMOUNT_def IN_Q_OVERFLOW_def IN_IGNORED_def IN_ONLYDIR_def IN_ISDIR_def

subsection \<open>Linear scans\<close>

lemma first_index_SomeD:
  "first_index P xs = Some j \<Longrightarrow> j < length xs \<and> P (xs ! j) \<and> (\<forall>i<j. \<not> P (xs ! i))"
proof (induction xs arbitrary: j)
  case Nil
  then show ?case by simp
next
  case (Cons x xs)
  show ?case
  proof (cases "P x")
    case True
    with Cons.prems show ?thesis by simp
  next
    case False
    with Cons.prems obtain k where k: "first_index P xs = Some k" "j = Suc k"
      by auto
    from Cons.IH [OF k(1)] False k(2) show ?thesis
      by (auto simp: nth_Cons split: nat.splits)
  qed
qed

lemma first_index_None_iff: "first_index P xs = None \<longleftrightarrow> (\<forall>x\<in>set xs. \<not> P x)"
  by (induction xs) auto

subsection \<open>Root directories\<close>

lemma isRootDirPath_iff: "isRootDirPath st p \<longleftrightarrow> Some p \<in> set (rootDirPaths st)"
  by (auto simp: isRootDirPath_def findRootDirPath_def first_index_None_iff)

lemma filter_None_update:
  assumes "j < length rs" "rs ! j = Some p"
  shows "length (filter (\<lambda>r. r = None) (rs[j := None]))
         = Suc (length (filter (\<lambda>r. r = None) rs))"
  using assms
proof (induction rs arbitrary: j)
  case Nil
  then show ?case by simp
next
  case (Cons r rs)
  then show ?case by (cases j) auto
qed

lemma count_None_all:
  "length (filter (\<lambda>r. r = None) rs) = length rs \<longleftrightarrow> (\<forall>r\<in>set rs. r = None)"
proof (induction rs)
  case Nil
  then show ?case by simp
next
  case (Cons r rs)
  have le: "length (filter (\<lambda>x. x = None) rs) < Suc (length rs)"
    by (simp add: less_Suc_eq_le)
  show ?case
  proof (cases r)
    case None
    with Cons show ?thesis by simp
  next
    case (Some y)
    with le show ?thesis by simp
  qed
qed

subsection \<open>Prefix matches\<close>

lemma lies_under_append: "lies_under pre p \<longleftrightarrow> p = pre \<or> (\<exists>s. p = pre @ ''/'' @ s)"
proof
  assume "lies_under pre p"
  then show "p = pre \<or> (\<exists>s. p = pre @ ''/'' @ s)"
    unfolding lies_under_def
    by (metis append_take_drop_id append_assoc)
next
  assume "p = pre \<or> (\<exists>s. p = pre @ ''/'' @ s)"
  then show "lies_under pre p"
    by (auto simp: lies_under_def)
qed

lemma prefix_match_iff:
  assumes "CHR 0x00 \<notin> set p"
  shows "prefix_match pre p \<longleftrightarrow> lies_under pre p"
proof
  assume pm: "prefix_match pre p"
  then have tk: "take (length pre) p = pre"
    by (simp add: prefix_match_def strncmp_eq_def)
  show "lies_under pre p"
  proof (cases "length pre < length p")
    case True
    then have "p ! length pre \<in> set p" by simp
    with assms have "p ! length pre \<noteq> CHR 0x00" by metis
    with pm True have "p ! length pre = CHR ''/''"
      by (simp add: prefix_match_def char_at_def)
    with True tk have "take (Suc (length pre)) p = pre @ ''/''"
      by (simp add: take_Suc_conv_app_nth)
    then show ?thesis by (simp add: lies_under_def)
  next
    case False
    with tk have "p = pre" by simp
    then show ?thesis by (simp add: lies_under_def)
  qed
next
  assume "lies_under pre p"
  then consider "p = pre" | s where "p = pre @ ''/'' @ s"
    by (auto simp: lies_under_append)
  then show "prefix_match pre p"
  proof cases
    case 1
    then show ?thesis by (simp add: prefix_match_def strncmp_eq_def char_at_def)
  next
    case 2
    then show ?thesis by (simp add: prefix_match_def strncmp_eq_def char_at_def nth_append)
  qed
qed

lemma lies_under_take: "lies_under pre p \<Longrightarrow> take (length pre) p = pre"
  by (auto simp: lies_under_append)

lemma lies_under_drop:
  "lies_under pre p \<Longrightarrow> drop (length pre) p = [] \<or> (\<exists>s. drop (length pre) p = ''/'' @ s)"
  by (auto simp: lies_under_append)

lemma renamed_under_new: "lies_under old p \<Longrightarrow> lies_under new (renamed old new p)"
  using lies_under_drop [of old p] by (auto simp: renamed_def lies_under_append)

lemma renamed_inj:
  assumes "\<not> lies_under new p" "\<not> lies_under new q" "renamed old new p = renamed old new q"
  shows "p = q"
proof (cases "lies_under old p")
  case p: True
  show ?thesis
  proof (cases "lies_under old q")
    case True
    with p assms(3) have "drop (length old) p = drop (length old) q"
      by (simp add: renamed_def)
    moreover have "take (length old) p = take (length old) q"
      using p True by (simp add: lies_under_take)
    ultimately show ?thesis by (metis append_take_drop_id)
  next
    case False
    with assms(3) have "q = renamed old new p" by (simp add: renamed_def)
    with renamed_under_new [OF p] assms(2) show ?thesis by simp
  qed
next
  case np: False
  show ?thesis
  proof (cases "lies_under old q")
    case True
    with np assms(3) have "p = renamed old new q" by (simp add: renamed_def)
    with renamed_under_new [OF True] assms(1) show ?thesis by simp
  next
    case False
    with np assms(3) show ?thesis by (simp add: renamed_def)
  qed
qed

lemma under_both:
  assumes "lies_under new r" "lies_under old r"
  shows "lies_under old new \<or> lies_under new old"
proof -
  from assms(1) obtain s where s: "r = new @ s" "s = [] \<or> (\<exists>t. s = ''/'' @ t)"
    by (auto simp: lies_under_append)
  from assms(2) obtain u where u: "r = old @ u" "u = [] \<or> (\<exists>t. u = ''/'' @ t)"
    by (auto simp: lies_under_append)
  from s(1) u(1) have "new @ s = old @ u" by simp
  then obtain v where "(new = old @ v \<and> v @ s = u) \<or> (new @ v = old \<and> s = v @ u)"
    by (auto simp: append_eq_append_conv2)
  then show ?thesis
  proof
    assume a: "new = old @ v \<and> v @ s = u"
    show ?thesis
    proof (cases v)
      case Nil
      with a show ?thesis by (simp add: lies_under_def)
    next
      case (Cons c v')
      with a u(2) have "c = CHR ''/''" by auto
      with a Cons have "new = old @ ''/'' @ v'" by simp
      then show ?thesis by (auto simp: lies_under_append)
    qed
  next
    assume a: "new @ v = old \<and> s = v @ u"
    show ?thesis
    proof (cases v)
      case Nil
      with a show ?thesis by (auto simp: lies_under_def)
    next
      case (Cons c v')
      with a s(2) have "c = CHR ''/''" by auto
      with a Cons have "old = new @ ''/'' @ v'" by auto
      then show ?thesis by (auto simp: lies_under_append)
    qed
  qed
qed

lemma renamed_not_under_old:
  assumes "\<not> lies_under old new" "\<not> lies_under new old"
  shows "\<not> lies_under old (renamed old new p)"
proof (cases "lies_under old p")
  case True
  from renamed_under_new [OF True] under_both [of new "renamed old new p" old] assms
  show ?thesis by blast
next
  case False
  then show ?thesis by (simp add: renamed_def)
qed

subsection \<open>The rewrite of cached paths\<close>

lemma snprintf_slash_fits:
  "length (a @ ''/'' @ b) < n \<Longrightarrow> snprintf_slash n a b = a @ ''/'' @ b"
  by (simp add: snprintf_slash_def)

lemma rewriteCachedPaths_cache:
  assumes "length (oldP @ ''/'' @ oldN) < PATH_MAX" "length (newP @ ''/'' @ newN) < PATH_MAX"
  shows "wlCache (rewriteCachedPaths st oldP oldN newP newN) =
         map (\<lambda>e. if prefix_match (oldP @ ''/'' @ oldN) (path e)
                   then e\<lparr>path := take (PATH_MAX - 1)
                          ((newP @ ''/'' @ newN) @ drop (length (oldP @ ''/'' @ oldN)) (path e))\<rparr>
                   else e) (wlCache st)"
  using assms
  by (simp add: rewriteCachedPaths_def Let_def snprintf_slash_fits snprintf_cat_def
      strncpy_path_def del: append_assoc)

lemma rewriteCachedPaths_frame:
  "length (wlCache (rewriteCachedPaths st a b c d)) = length (wlCache st) \<and>
   map wd (wlCache (rewriteCachedPaths st a b c d)) = map wd (wlCache st) \<and>
   rootDirPaths (rewriteCachedPaths st a b c d) = rootDirPaths st \<and>
   ignoreRootDirs (rewriteCachedPaths st a b c d) = ignoreRootDirs st \<and>
   trace (rewriteCachedPaths st a b c d) = trace st"
  by (simp add: rewriteCachedPaths_def Let_def comp_def if_distrib cong: if_cong)

subsection \<open>Evaluating the model on concrete inputs\<close>

lemmas string_defs =
  snprintf_slash_def snprintf_cat_def strncpy_path_def strncmp_eq_def char_at_def
  prefix_match_def PATH_MAX_def NAME_MAX_def

lemmas cache_defs =
  findWatch_def findWatchChecked_def markCacheSlotEmpty_def empty_watch_def
  pathnameToCacheSlot_def pathnameInCache_def findRootDirPath_def isRootDirPath_def
  zapRootDirPath_def rewriteCachedPaths_def zapSubtree_def active_entries_def
  dumpCacheToLog_def createStopFileAndAbort_def

lemmas step_defs =
  processNextInotifyEvent_def dispatch_event_def moved_from_def moved_out_def finish_def
  reinit_and_discard_def event_size_def sizeof_inotify_event_def INOTIFY_READ_BUF_LEN_def
  SIZE_MAX_def final_state_def

lemmas walk_defs =
  reinitialize_def freeCache_def watchSubtree_def watchDir_def traverseTree_def
  watch_flags_def addWatchToCache_def findEmptyCacheSlot_def ALLOC_INCR_def

subsection \<open>The step for a directory "moved from" event\<close>

lemma final_state_finish:
  "final_state (finish e st fd n) = st \<or> final_state (finish e st fd n) = dumpCacheToLog st"
  by (simp add: finish_def final_state_def checkCacheConsistency_def)

lemma finish_frame:
  "wlCache (final_state (finish e st fd n)) = wlCache st \<and>
   rootDirPaths (final_state (finish e st fd n)) = rootDirPaths st \<and>
   ignoreRootDirs (final_state (finish e st fd n)) = ignoreRootDirs st \<and>
   (trace (final_state (finish e st fd n)) = trace st \<or>
    trace (final_state (finish e st fd n)) = trace st @ [A_dump (active_entries (wlCache st))])"
  using final_state_finish [of e st fd n]
  by (auto simp: dumpCacheToLog_def)

lemma finish_returns:
  "finish e st fd n = Inr (st1, fd1, r) \<Longrightarrow> fd1 = fd \<and> r = n"
  by (auto simp: finish_def checkCacheConsistency_def split: if_splits)

lemma finish_unchecked:
  "\<not> checkCache st \<Longrightarrow>
   finish e st fd n = Inr (if dumpCache st then dumpCacheToLog st else st, fd, n)"
  by (simp add: finish_def)

lemma processNext_found:
  assumes "ev_wd ev \<noteq> -1" "ev_mask ev AND IN_IGNORED = 0" "findWatch st (ev_wd ev) = Some slot"
  shows "processNextInotifyEvent e st fd ev rest bufSize firstTry
         = dispatch_event e st fd ev rest bufSize firstTry (Some slot)"
  using assms by (simp add: processNextInotifyEvent_def findWatchChecked_def)

lemma dir_moved_from_isdir:
  assumes "m AND (IN_MOVED_FROM OR IN_ISDIR) = (IN_MOVED_FROM OR IN_ISDIR)"
  shows "m AND IN_ISDIR = IN_ISDIR"
proof -
  have "m AND IN_ISDIR = (m AND (IN_MOVED_FROM OR IN_ISDIR)) AND IN_ISDIR"
    by (simp add: in_mask_defs and.assoc)
  also have "\<dots> = (IN_MOVED_FROM OR IN_ISDIR) AND IN_ISDIR"
    using assms by simp
  also have "\<dots> = IN_ISDIR"
    by (simp add: in_mask_defs)
  finally show ?thesis .
qed

lemma process_dir_moved_from:
  assumes "dir_moved_from ev" "findWatch st (ev_wd ev) = Some slot"
  shows "processNextInotifyEvent e st fd ev rest bufSize firstTry
         = moved_from e st fd ev rest bufSize firstTry slot (event_size ev)"
proof -
  from assms(1) have m: "ev_wd ev \<noteq> -1" "ev_mask ev AND IN_IGNORED = 0"
    "ev_mask ev AND (IN_MOVED_FROM OR IN_ISDIR) = (IN_MOVED_FROM OR IN_ISDIR)"
    "ev_mask ev AND (IN_CREATE OR IN_MOVED_TO) = 0" "ev_mask ev AND IN_DELETE_SELF = 0"
    by (simp_all add: dir_moved_from_def)
  from processNext_found [OF m(1,2) assms(2)] m(3-5) show ?thesis
    by (simp add: dispatch_event_def Let_def)
qed

lemma moved_from_in_tree:
  assumes "int evLen < bufSize" "rest = nextEv # later" "next_matches ev nextEv"
    and "findWatch st (ev_wd nextEv) = Some slot2"
  shows "moved_from e st fd ev rest bufSize firstTry slot evLen
         = finish e (rewriteCachedPaths st (path (wlCache st ! slot)) (ev_name ev)
                       (path (wlCache st ! slot2)) (ev_name nextEv))
             fd (evLen + event_size nextEv)"
  using assms
  by (simp add: moved_from_def next_matches_def findWatchChecked_def event_size_def)

lemma event_size_pos: "0 < event_size ev"
  by (simp add: event_size_def sizeof_inotify_event_def)

lemma buf_bytes_Cons: "buf_bytes (ev # evs) = event_size ev + buf_bytes evs"
  by (simp add: buf_bytes_def)

lemma buf_bytes_pos: "evs \<noteq> [] \<Longrightarrow> 0 < buf_bytes evs"
  using event_size_pos by (cases evs) (simp_all add: buf_bytes_Cons)

lemma next_in_buffer:
  "int (event_size ev) < int (buf_bytes (ev # rest)) \<longleftrightarrow> rest \<noteq> []"
  using buf_bytes_pos [of rest] by (cases rest) (auto simp: buf_bytes_Cons buf_bytes_def)

lemma moved_from_cache_miss:
  assumes "int evLen < bufSize" "rest = nextEv # later" "next_matches ev nextEv"
    and "findWatch st (ev_wd nextEv) = None"
  shows "moved_from e st fd ev rest bufSize firstTry slot evLen
         = (if abortOnCacheProblem st then Inl (createStopFileAndAbort st)
            else reinit_and_discard e st fd)"
  using assms
  by (simp add: moved_from_def next_matches_def findWatchChecked_def)

lemma moved_from_no_match:
  assumes "rest = [] \<or> \<not> next_matches ev (hd rest)" "int evLen < bufSize \<longleftrightarrow> rest \<noteq> []"
  shows "moved_from e st fd ev rest bufSize firstTry slot evLen
         = (if rest \<noteq> [] \<or> \<not> firstTry then moved_out e st fd ev slot evLen
            else Inr (st, fd, SIZE_MAX))"
  using assms by (auto simp: moved_from_def next_matches_def)

lemma reinit_and_discard_returns:
  "reinit_and_discard e st fd = Inr (st1, fd1, n) \<Longrightarrow> n = INOTIFY_READ_BUF_LEN"
  by (auto simp: reinit_and_discard_def split: sum.splits)

lemma int_of_size_t_small: "n < 2 ^ 31 \<Longrightarrow> int_of_size_t n = int n"
  by (simp add: int_of_size_t_def)

lemma int_of_size_t_buf_len: "int_of_size_t INOTIFY_READ_BUF_LEN = int INOTIFY_READ_BUF_LEN"
  by (simp add: int_of_size_t_def INOTIFY_READ_BUF_LEN_def sizeof_inotify_event_def NAME_MAX_def)

lemma loop_ends_after_discard:
  assumes "0 < avail" "avail \<le> int INOTIFY_READ_BUF_LEN"
    and "processNextInotifyEvent (envs k) st fd ev rest avail firstTry
         = Inr (st1, fd1, INOTIFY_READ_BUF_LEN)"
  shows "event_loop (Suc (Suc fuel)) envs k st fd cnt (ev # rest) avail firstTry reads
         = Some (Inr (st1, fd1, cnt))"
proof -
  have pos: "0 < int INOTIFY_READ_BUF_LEN"
    by (simp add: INOTIFY_READ_BUF_LEN_def sizeof_inotify_event_def)
  from assms pos show ?thesis
    by (simp add: int_of_size_t_buf_len)
qed

lemma first_index_replicate:
  "first_index P (replicate n x) = (if 0 < n \<and> P x then Some 0 else None)"
  by (induction n) auto

lemma replicate_numeral_update:
  "(replicate (numeral k) x)[0 := y] = y # replicate (pred_numeral k) x"
  by (simp add: numeral_eq_Suc)

lemmas replicate_eval = first_index_replicate replicate_numeral_update

subsection \<open>Walks and the rebuild of the cache\<close>



lemma walk_step_refl: "walk_step fd st st"
  by (simp add: walk_step_def)

lemma walk_step_trans: "walk_step fd st st1 \<Longrightarrow> walk_step fd st1 st2 \<Longrightarrow> walk_step fd st st2"
proof -
  assume a: "walk_step fd st st1" and b: "walk_step fd st1 st2"
  from a obtain xs where xs: "trace st1 = trace st @ xs" "\<forall>a\<in>set xs. added_watch fd a"
    by (auto simp: walk_step_def)
  from b obtain ys where ys: "trace st2 = trace st1 @ ys" "\<forall>a\<in>set ys. added_watch fd a"
    by (auto simp: walk_step_def)
  from xs ys have "trace st2 = trace st @ (xs @ ys) \<and> (\<forall>a\<in>set (xs @ ys). added_watch fd a)"
    by auto
  then have "\<exists>adds. trace st2 = trace st @ adds \<and> (\<forall>a\<in>set adds. added_watch fd a)"
    by blast
  with a b show ?thesis by (simp add: walk_step_def)
qed

lemma set_update_keeps:
  assumes "w \<in> set xs" "j < length xs" "w \<noteq> xs ! j"
  shows "w \<in> set (xs[j := y])"
proof -
  from assms(1) obtain i where i: "i < length xs" "xs ! i = w"
    by (auto simp: in_set_conv_nth)
  with assms(3) have "i \<noteq> j" by auto
  with i assms(2) have "xs[j := y] ! i = w" by simp
  with i(1) show ?thesis by (metis length_list_update nth_mem)
qed

lemma addWatchToCache_Inr:
  assumes "addWatchToCache e st v p = Inr (st1, slot)"
  shows "rootDirPaths st1 = rootDirPaths st \<and> trace st1 = trace st \<and>
         slot < length (wlCache st1) \<and>
         wlCache st1 ! slot = \<lparr>wd = v, path = strncpy_path p\<rparr> \<and>
         (\<forall>w\<in>set (wlCache st). wd w \<noteq> -1 \<longrightarrow> w \<in> set (wlCache st1)) \<and>
         (\<forall>w\<in>set (wlCache st1). wd w \<noteq> -1 \<longrightarrow>
             w \<in> set (wlCache st) \<or> w = \<lparr>wd = v, path = strncpy_path p\<rparr>)"
proof (cases "first_index (\<lambda>w. wd w = -1) (wlCache st)")
  case None
  with assms have ok: "env_realloc_ok e"
    and st1: "st1 = st\<lparr>wlCache := (wlCache st @ replicate ALLOC_INCR empty_watch)
                 [length (wlCache st) := \<lparr>wd = v, path = strncpy_path p\<rparr>]\<rparr>"
    and slot: "slot = length (wlCache st)"
    by (auto simp: addWatchToCache_def findEmptyCacheSlot_def split: if_splits)
  have c: "wlCache st1 = wlCache st @ \<lparr>wd = v, path = strncpy_path p\<rparr>
                # replicate (ALLOC_INCR - 1) empty_watch"
    by (simp add: st1 list_update_append ALLOC_INCR_def numeral_eq_Suc)
  show ?thesis
    using c slot st1 by (auto simp: nth_append empty_watch_def)
next
  case (Some j)
  with assms have st1: "st1 = st\<lparr>wlCache := (wlCache st)[j := \<lparr>wd = v, path = strncpy_path p\<rparr>]\<rparr>"
    and slot: "slot = j"
    by (auto simp: addWatchToCache_def findEmptyCacheSlot_def)
  from first_index_SomeD [OF Some] have j: "j < length (wlCache st)" "wd (wlCache st ! j) = -1"
    by auto
  have keep: "\<forall>w\<in>set (wlCache st). wd w \<noteq> -1 \<longrightarrow> w \<in> set (wlCache st1)"
    using j by (auto simp: st1 intro!: set_update_keeps)
  have new: "\<forall>w\<in>set (wlCache st1). wd w \<noteq> -1 \<longrightarrow>
             w \<in> set (wlCache st) \<or> w = \<lparr>wd = v, path = strncpy_path p\<rparr>"
    using set_update_subset_insert [of "wlCache st" j] by (auto simp: st1)
  from keep new j slot show ?thesis by (simp add: st1)
qed



lemma traverseTree_Inr:
  assumes "traverseTree e fd st f = Inr st1"
  shows "walk_step fd st st1 \<and>
         (\<forall>w\<in>set (wlCache st1). wd w \<noteq> -1 \<longrightarrow>
             w \<in> set (wlCache st) \<or> (ftw_isdir f \<and> w = entry_of f)) \<and>
         (ftw_isdir f \<and> ftw_wd f \<noteq> -1 \<longrightarrow> findWatch st1 (ftw_wd f) \<noteq> None)"
proof (cases "ftw_isdir f")
  case False
  with assms show ?thesis by (simp add: traverseTree_def walk_step_refl)
next
  case True
  define st0 where "st0 = st\<lparr>trace := trace st @
      [A_add_watch fd (ftw_path f) (watch_flags st (ftw_path f))]\<rparr>"
  have s0: "walk_step fd st st0" "wlCache st0 = wlCache st"
    by (simp_all add: st0_def walk_step_def)
  show ?thesis
  proof (cases "ftw_wd f = -1")
    case m1: True
    with True assms have "st1 = st0"
      by (simp add: traverseTree_def Let_def st0_def split: if_splits)
    with s0 m1 show ?thesis by simp
  next
    case wdok: False
    show ?thesis
    proof (cases "findWatch st0 (ftw_wd f)")
      case (Some j)
      with True wdok assms have "st1 = st0"
        by (simp add: traverseTree_def Let_def st0_def)
      with s0 Some show ?thesis by simp
    next
      case None
      with True wdok assms obtain slot where
        add: "addWatchToCache e st0 (ftw_wd f) (ftw_path f) = Inr (st1, slot)"
        by (auto simp: traverseTree_def Let_def st0_def split: sum.splits)
      note a = addWatchToCache_Inr [OF add]
      from a have ws: "walk_step fd st0 st1"
        by (simp add: walk_step_def)
      from a have "slot < length (wlCache st1)" by simp
      then have "wlCache st1 ! slot \<in> set (wlCache st1)" by (rule nth_mem)
      moreover from a have "wd (wlCache st1 ! slot) = ftw_wd f" by simp
      ultimately have "\<exists>w\<in>set (wlCache st1). wd w = ftw_wd f"
        by blast
      then have found: "findWatch st1 (ftw_wd f) \<noteq> None"
        by (simp add: findWatch_def first_index_None_iff)
      from a s0 True have snd: "\<forall>w\<in>set (wlCache st1). wd w \<noteq> -1 \<longrightarrow>
             w \<in> set (wlCache st) \<or> (ftw_isdir f \<and> w = entry_of f)"
        by (simp add: entry_of_def)
      from walk_step_trans [OF s0(1) ws] snd found show ?thesis by simp
    qed
  qed
qed

lemma walk_step_keeps_watch:
  assumes "walk_step fd st st1" "findWatch st v \<noteq> None" "v \<noteq> -1"
  shows "findWatch st1 v \<noteq> None"
proof -
  from assms(2) obtain w where w: "w \<in> set (wlCache st)" "wd w = v"
    by (auto simp: findWatch_def first_index_None_iff)
  with assms(1,3) have "w \<in> set (wlCache st1)"
    by (auto simp: walk_step_def)
  with w(2) show ?thesis
    by (auto simp: findWatch_def first_index_None_iff)
qed

lemma nftw_calls_Inr:
  assumes "nftw_calls e fd st fs = Inr st1"
  shows "walk_step fd st st1 \<and>
         (\<forall>w\<in>set (wlCache st1). wd w \<noteq> -1 \<longrightarrow>
             w \<in> set (wlCache st) \<or> (\<exists>f\<in>set (filter ftw_isdir fs). w = entry_of f)) \<and>
         (\<forall>f\<in>set (filter ftw_isdir fs). ftw_wd f \<noteq> -1 \<longrightarrow> findWatch st1 (ftw_wd f) \<noteq> None)"
  using assms
proof (induction fs arbitrary: st)
  case Nil
  then show ?case by (simp add: walk_step_refl)
next
  case (Cons f fs)
  from Cons.prems obtain st0 where
    t: "traverseTree e fd st f = Inr st0" and r: "nftw_calls e fd st0 fs = Inr st1"
    by (auto split: sum.splits)
  note a = traverseTree_Inr [OF t] and b = Cons.IH [OF r]
  have ws: "walk_step fd st st1"
    using a b walk_step_trans by blast
  have snd: "\<forall>w\<in>set (wlCache st1). wd w \<noteq> -1 \<longrightarrow>
             w \<in> set (wlCache st) \<or> (\<exists>g\<in>set (filter ftw_isdir (f # fs)). w = entry_of g)"
    using a b by fastforce
  have cmp: "\<forall>g\<in>set (filter ftw_isdir (f # fs)). ftw_wd g \<noteq> -1 \<longrightarrow>
               findWatch st1 (ftw_wd g) \<noteq> None"
  proof (intro ballI impI)
    fix g assume g: "g \<in> set (filter ftw_isdir (f # fs))" "ftw_wd g \<noteq> -1"
    show "findWatch st1 (ftw_wd g) \<noteq> None"
    proof (cases "g \<in> set (filter ftw_isdir fs)")
      case True
      with b g(2) show ?thesis by blast
    next
      case False
      with g(1) have "g = f" "ftw_isdir f" by (auto split: if_splits)
      with a g(2) have "findWatch st0 (ftw_wd g) \<noteq> None" by simp
      with b g(2) show ?thesis using walk_step_keeps_watch by blast
    qed
  qed
  from ws snd cmp show ?case by blast
qed

lemma watch_roots_Inr:
  assumes "watch_roots e fd st rs = Inr st1"
  shows "walk_step fd st st1 \<and>
         (\<forall>w\<in>set (wlCache st1). wd w \<noteq> -1 \<longrightarrow>
             w \<in> set (wlCache st) \<or> (\<exists>f\<in>set (walked_roots e rs). w = entry_of f)) \<and>
         (\<forall>f\<in>set (walked_roots e rs). ftw_wd f \<noteq> -1 \<longrightarrow> findWatch st1 (ftw_wd f) \<noteq> None)"
  using assms
proof (induction e fd st rs rule: watch_roots.induct)
  case (1 e fd st)
  then show ?case by (simp add: walk_step_refl)
next
  case (2 e fd st rs)
  then show ?case by simp
next
  case (3 e fd st p rs)
  from "3.prems" obtain st0 where
    t: "nftw_calls e fd st (env_nftw e p) = Inr st0" and r: "watch_roots e fd st0 rs = Inr st1"
    by (auto simp: watchSubtree_def watchDir_def split: sum.splits)
  from t have w0: "watchSubtree e st fd p = Inr st0"
    by (simp add: watchSubtree_def watchDir_def)
  note a = nftw_calls_Inr [OF t] and b = "3.IH" [OF w0 r]
  have ws: "walk_step fd st st1"
    using a b walk_step_trans by blast
  have snd: "\<forall>w\<in>set (wlCache st1). wd w \<noteq> -1 \<longrightarrow>
             w \<in> set (wlCache st) \<or> (\<exists>g\<in>set (walked_roots e (Some p # rs)). w = entry_of g)"
    using a b by fastforce
  have cmp: "\<forall>g\<in>set (walked_roots e (Some p # rs)). ftw_wd g \<noteq> -1 \<longrightarrow>
               findWatch st1 (ftw_wd g) \<noteq> None"
  proof (intro ballI impI)
    fix g assume g: "g \<in> set (walked_roots e (Some p # rs))" "ftw_wd g \<noteq> -1"
    show "findWatch st1 (ftw_wd g) \<noteq> None"
    proof (cases "g \<in> set (walked_roots e rs)")
      case True
      with b g(2) show ?thesis by blast
    next
      case False
      with g(1) have "g \<in> set (filter ftw_isdir (env_nftw e p))" by auto
      with a g(2) have "findWatch st0 (ftw_wd g) \<noteq> None" by blast
      with b g(2) show ?thesis using walk_step_keeps_watch by blast
    qed
  qed
  from ws snd cmp show ?case by blast
qed

lemma reinitialize_Inr:
  assumes "reinitialize e st fd = Inr (st1, fd1)" "0 \<le> fd"
  shows "fd1 = env_inotify_init e \<and> fd1 \<noteq> -1 \<and> rootDirPaths st1 = rootDirPaths st \<and>
         (\<exists>adds. trace st1 = trace st @ [A_close fd, A_inotify_init] @ adds \<and>
                  (\<forall>a\<in>set adds. added_watch fd1 a)) \<and>
         (\<forall>w\<in>set (wlCache st1). wd w \<noteq> -1 \<longrightarrow>
             (\<exists>f\<in>set (walked_entries e st). w = entry_of f)) \<and>
         (\<forall>f\<in>set (walked_entries e st). ftw_wd f \<noteq> -1 \<longrightarrow> findWatch st1 (ftw_wd f) \<noteq> None)"
proof -
  define st2 where "st2 = st\<lparr>trace := trace st @ [A_close fd, A_inotify_init]\<rparr>"
  from assms have fd1: "fd1 = env_inotify_init e" "fd1 \<noteq> -1"
    and w: "watch_roots e fd1 (freeCache st2) (rootDirPaths st) = Inr st1"
    by (auto simp: reinitialize_def Let_def st2_def freeCache_def split: if_splits sum.splits)
  note a = watch_roots_Inr [OF w]
  from a have roots: "rootDirPaths st1 = rootDirPaths st"
    by (simp add: walk_step_def freeCache_def st2_def)
  from a obtain adds where "trace st1 = trace (freeCache st2) @ adds"
    "\<forall>a\<in>set adds. added_watch fd1 a"
    by (auto simp: walk_step_def)
  then have tr: "\<exists>adds. trace st1 = trace st @ [A_close fd, A_inotify_init] @ adds \<and>
                  (\<forall>a\<in>set adds. added_watch fd1 a)"
    by (auto simp: freeCache_def st2_def)
  from a have snd: "\<forall>w\<in>set (wlCache st1). wd w \<noteq> -1 \<longrightarrow>
             (\<exists>f\<in>set (walked_entries e st). w = entry_of f)"
    by (simp add: freeCache_def walked_entries_def)
  from a have cmp: "\<forall>f\<in>set (walked_entries e st). ftw_wd f \<noteq> -1 \<longrightarrow>
      findWatch st1 (ftw_wd f) \<noteq> None"
    by (simp add: walked_entries_def)
  from fd1 roots tr snd cmp show ?thesis by blast
qed

subsection \<open>The value a step returns\<close>


lemma moved_out_returns:
  "moved_out e st fd ev slot n = Inr (st1, fd1, r) \<Longrightarrow> r = n \<or> r = INOTIFY_READ_BUF_LEN"
  by (auto simp: moved_out_def Let_def split: prod.splits if_splits
      dest: finish_returns reinit_and_discard_returns)

lemma moved_from_returns:
  assumes "moved_from e st fd ev rest bufSize firstTry slot n = Inr (st1, fd1, r)"
  shows "r = n \<or> (rest \<noteq> [] \<and> r = n + event_size (hd rest)) \<or> r = INOTIFY_READ_BUF_LEN \<or>
         (r = SIZE_MAX \<and> firstTry)"
proof (cases "int n < bufSize \<and> rest = []")
  case True
  with assms show ?thesis by (simp add: moved_from_def)
next
  case ne: False
  show ?thesis
  proof (cases "int n < bufSize \<and> ev_mask (hd rest) AND IN_MOVED_TO \<noteq> 0 \<and>
              ev_cookie (hd rest) = ev_cookie ev")
    case True
    with ne have r: "rest \<noteq> []" by auto
    from True ne assms show ?thesis
      using r
      by (auto simp: moved_from_def Let_def event_size_def split: sum.splits option.splits
          dest: finish_returns reinit_and_discard_returns)
  next
    case False
    with ne assms show ?thesis
      by (auto simp: moved_from_def split: if_splits dest: moved_out_returns)
  qed
qed

lemma dispatch_returns:
  assumes "dispatch_event e st fd ev rest bufSize firstTry so = Inr (st1, fd1, r)"
  shows "r = event_size ev \<or> (rest \<noteq> [] \<and> r = event_size ev + event_size (hd rest)) \<or>
         r = INOTIFY_READ_BUF_LEN \<or> (r = SIZE_MAX \<and> firstTry)"
  using assms
  unfolding dispatch_event_def Let_def
  by (auto split: if_splits option.splits sum.splits prod.splits
      dest: finish_returns reinit_and_discard_returns moved_from_returns)

lemma processNext_returns:
  assumes "processNextInotifyEvent e st fd ev rest bufSize firstTry = Inr (st1, fd1, r)"
  shows "r = event_size ev \<or> (rest \<noteq> [] \<and> r = event_size ev + event_size (hd rest)) \<or>
         r = INOTIFY_READ_BUF_LEN \<or> (r = SIZE_MAX \<and> firstTry)"
  using assms
  unfolding processNextInotifyEvent_def
  by (auto split: if_splits option.splits sum.splits
      dest: reinit_and_discard_returns dispatch_returns)


lemma event_size_bounds: "event_size ev < 2 ^ 32 + 16"
proof -
  have "unat (ev_len ev) < 2 ^ 32"
    using unsigned_less [of "ev_len ev", where 'a = nat] by simp
  then show ?thesis by (simp add: event_size_def sizeof_inotify_event_def)
qed

lemma never_defers_on_retry:
  "processNextInotifyEvent e st fd ev rest bufSize False \<noteq> Inr (st1, fd1, SIZE_MAX)"
proof
  assume "processNextInotifyEvent e st fd ev rest bufSize False = Inr (st1, fd1, SIZE_MAX)"
  from processNext_returns [OF this]
  have "SIZE_MAX = event_size ev \<or> SIZE_MAX = event_size ev + event_size (hd rest) \<or>
        SIZE_MAX = INOTIFY_READ_BUF_LEN"
    by auto
  moreover have "event_size ev < 2 ^ 33" "event_size ev + event_size (hd rest) < 2 ^ 34"
    using event_size_bounds [of ev] event_size_bounds [of "hd rest"] by simp_all
  ultimately show False
    by (auto simp: SIZE_MAX_def INOTIFY_READ_BUF_LEN_def sizeof_inotify_event_def NAME_MAX_def)
qed

lemma kernel_event_size: "kernel_event ev \<Longrightarrow> event_size ev \<le> 272"
  by (simp add: kernel_event_def event_size_def sizeof_inotify_event_def NAME_MAX_def)

lemma consumed_positive:
  assumes "processNextInotifyEvent e st fd ev rest bufSize firstTry = Inr (st1, fd1, r)"
    and "kernel_event ev" "rest \<noteq> [] \<longrightarrow> kernel_event (hd rest)"
  shows "(r = SIZE_MAX \<and> firstTry \<and> int_of_size_t r = -1) \<or>
         (0 < r \<and> int_of_size_t r = int r)"
proof -
  from processNext_returns [OF assms(1)]
  consider "r = event_size ev" | "rest \<noteq> []" "r = event_size ev + event_size (hd rest)"
    | "r = INOTIFY_READ_BUF_LEN" | "r = SIZE_MAX" "firstTry"
    by blast
  then show ?thesis
  proof cases
    case 1
    with kernel_event_size [OF assms(2)] event_size_pos [of ev] show ?thesis
      by (simp add: int_of_size_t_small)
  next
    case 2
    with assms(3) have "kernel_event (hd rest)" by simp
    from kernel_event_size [OF this] kernel_event_size [OF assms(2)] event_size_pos [of ev] 2
    show ?thesis
      by (simp add: int_of_size_t_small)
  next
    case 3
    then show ?thesis
      by (simp add: int_of_size_t_buf_len)
        (simp add: INOTIFY_READ_BUF_LEN_def sizeof_inotify_event_def)
  next
    case 4
    then show ?thesis
      by (simp add: int_of_size_t_def SIZE_MAX_def)
  qed
qed

lemma length_drop_bytes: "length (drop_bytes n evs) \<le> length evs"
  by (induction n evs rule: drop_bytes.induct) auto

lemma length_drop_bytes_pos: "0 < n \<Longrightarrow> length (drop_bytes n (ev # evs)) \<le> length evs"
  using length_drop_bytes [of "n - event_size ev" evs] by simp

lemma set_drop_bytes: "set (drop_bytes n evs) \<subseteq> set evs"
  by (induction n evs rule: drop_bytes.induct) auto

lemma pending_next_read:
  "next_read reads = (r, rs) \<Longrightarrow> pending_events reads = read_events r @ pending_events rs"
  by (auto simp: next_read_def pending_events_def split: list.splits)

subsection \<open>Termination of the loop over a buffer\<close>


lemma event_loop_terminates:
  assumes "\<forall>ev\<in>set evs. kernel_event ev" "\<forall>ev\<in>set (pending_events reads). kernel_event ev"
    and "\<not> firstTry \<longrightarrow> evs \<noteq> []"
    and "2 * (length evs + length (pending_events reads)) + (if firstTry then 1 else 0) < fuel"
  shows "\<exists>res. event_loop fuel envs k st fd cnt evs avail firstTry reads = Some res \<and>
           (\<forall>st' fd' cnt'. res = Inr (st', fd', cnt') \<longrightarrow>
               cnt' + (if firstTry then 0 else 1)
                 \<le> cnt + length evs + length (pending_events reads))"
  using assms
proof (induction fuel arbitrary: k st fd cnt evs avail firstTry reads)
  case 0
  then show ?case by simp
next
  case (Suc fuel)
  let ?R = "length (pending_events reads)"
  show ?case
  proof (cases "0 < avail")
    case False
    have "cnt + (if firstTry then 0 else 1) \<le> cnt + length evs + ?R"
      using Suc.prems(3) by (cases evs) auto
    with False show ?thesis by simp
  next
    case avail: True
    show ?thesis
    proof (cases evs)
      case Nil
      with avail show ?thesis by simp
    next
      case (Cons ev rest)
      show ?thesis
      proof (cases "processNextInotifyEvent (envs k) st fd ev rest avail firstTry")
        case (Inl h)
        with avail Cons show ?thesis by simp
      next
        case (Inr res1)
        obtain st1 fd1 r where res1: "res1 = (st1, fd1, r)" by (cases res1) auto
        with Inr have step:
          "processNextInotifyEvent (envs k) st fd ev rest avail firstTry = Inr (st1, fd1, r)"
          by simp
        have kev: "kernel_event ev" "rest \<noteq> [] \<longrightarrow> kernel_event (hd rest)"
          using Suc.prems(1) Cons by (auto simp: hd_in_set)
        from consumed_positive [OF step kev]
        consider (deferred) "r = SIZE_MAX" "firstTry" "int_of_size_t r = -1"
          | (consumed) "0 < r" "int_of_size_t r = int r"
          by blast
        then show ?thesis
        proof cases
          case consumed
          let ?evs' = "drop_bytes r evs"
          have eq: "event_loop (Suc fuel) envs k st fd cnt evs avail firstTry reads
                    = event_loop fuel envs (Suc k) st1 fd1 cnt ?evs' (avail - int r) True reads"
            using avail Cons step consumed by simp
          have len: "length ?evs' \<le> length rest"
            using length_drop_bytes_pos [OF consumed(1), of ev rest] Cons by simp
          have wf: "\<forall>ev\<in>set ?evs'. kernel_event ev"
            using Suc.prems(1) set_drop_bytes [of r evs] by blast
          have fuel: "2 * (length ?evs' + ?R) + (if True then 1 else 0) < fuel"
            using Suc.prems(4) len Cons by (auto split: if_splits)
          from Suc.IH [OF wf Suc.prems(2) _ fuel, where fd = fd1 and st = st1 and k = "Suc k"
              and cnt = cnt and avail = "avail - int r"]
          obtain res where res: "event_loop fuel envs (Suc k) st1 fd1 cnt ?evs' (avail - int r)
                                   True reads = Some res"
            and bound: "\<forall>st' fd' cnt'. res = Inr (st', fd', cnt') \<longrightarrow>
                          cnt' \<le> cnt + length ?evs' + ?R"
            by auto
          have "\<forall>st' fd' cnt'. res = Inr (st', fd', cnt') \<longrightarrow>
                  cnt' + (if firstTry then 0 else 1) \<le> cnt + length evs + ?R"
            using bound len Cons by fastforce
          with eq res show ?thesis by simp
        next
          case deferred
          obtain rr rs where nr: "next_read reads = (rr, rs)" by (cases "next_read reads") auto
          note pend = pending_next_read [OF nr]
          have wfrs: "\<forall>ev\<in>set (pending_events rs). kernel_event ev"
            using Suc.prems(2) pend by simp
          show ?thesis
          proof (cases rr)
            case Read_Error
            with avail Cons step deferred nr show ?thesis by simp
          next
            case Read_EINTR
            have eq: "event_loop (Suc fuel) envs k st fd cnt evs avail firstTry reads
                      = event_loop fuel envs (Suc k) st1 fd1 (cnt + 1) evs (avail - 1) False rs"
              using avail Cons step deferred nr Read_EINTR by simp
            have fuel: "2 * (length evs + length (pending_events rs))
                          + (if False then 1 else 0) < fuel"
              using Suc.prems(4) deferred(2) pend Read_EINTR by simp
            have ne: "\<not> False \<longrightarrow> evs \<noteq> []" using Cons by simp
            from Suc.IH [OF Suc.prems(1) wfrs ne fuel, where fd = fd1 and st = st1 and k = "Suc k"
                and cnt = "cnt + 1" and avail = "avail - 1"]
            obtain res where res: "event_loop fuel envs (Suc k) st1 fd1 (cnt + 1) evs (avail - 1)
                                     False rs = Some res"
              and bound: "\<forall>st' fd' cnt'. res = Inr (st', fd', cnt') \<longrightarrow>
                            cnt' + 1 \<le> cnt + 1 + length evs + length (pending_events rs)"
              by auto
            have "\<forall>st' fd' cnt'. res = Inr (st', fd', cnt') \<longrightarrow>
                    cnt' + (if firstTry then 0 else 1) \<le> cnt + length evs + ?R"
              using bound deferred(2) pend Read_EINTR by fastforce
            with eq res show ?thesis by simp
          next
            case (Read_Data new)
            show ?thesis
            proof (cases "new = [] \<or> avail \<noteq> int (buf_bytes evs)")
              case True
              with avail Cons step deferred nr Read_Data show ?thesis by auto
            next
              case False
              have eq: "event_loop (Suc fuel) envs k st fd cnt evs avail firstTry reads
                        = event_loop fuel envs (Suc k) st1 fd1 (cnt + 1) (evs @ new)
                            (avail + int (buf_bytes new)) False rs"
                using avail Cons step deferred nr Read_Data False by simp
              have wf: "\<forall>ev\<in>set (evs @ new). kernel_event ev"
                using Suc.prems(1,2) pend Read_Data by auto
              have fuel: "2 * (length (evs @ new) + length (pending_events rs))
                            + (if False then 1 else 0) < fuel"
                using Suc.prems(4) deferred(2) pend Read_Data by simp
              have ne: "\<not> False \<longrightarrow> evs @ new \<noteq> []" using Cons by simp
              from Suc.IH [OF wf wfrs ne fuel, where fd = fd1 and st = st1 and k = "Suc k"
                  and cnt = "cnt + 1" and avail = "avail + int (buf_bytes new)"]
              obtain res where res: "event_loop fuel envs (Suc k) st1 fd1 (cnt + 1) (evs @ new)
                                       (avail + int (buf_bytes new)) False rs = Some res"
                and bound: "\<forall>st' fd' cnt'. res = Inr (st', fd', cnt') \<longrightarrow>
                              cnt' + 1 \<le> cnt + 1 + length (evs @ new)
                                           + length (pending_events rs)"
                by auto
              have "\<forall>st' fd' cnt'. res = Inr (st', fd', cnt') \<longrightarrow>
                      cnt' + (if firstTry then 0 else 1) \<le> cnt + length evs + ?R"
                using bound deferred(2) pend Read_Data by fastforce
              with eq res show ?thesis by simp
            qed
          qed
        qed
      qed
    qed
  qed
qed

section \<open>The rewrite made for an in-tree rename\<close>

text \<open>
  C1, the claim as stated fails: the rewritten path is built in a buffer of
  \<open>PATH_MAX\<close> bytes, so a suffix is not always preserved. The cached directory below
  has a pathname of \<open>PATH_MAX - 1\<close> characters under \<open>/r/a\<close>; the in-tree rename of
  \<open>/r/a\<close> to \<open>/r/cc\<close> makes its new pathname one character longer, and the cache
  ends with that pathname cut by one character.
\<close>

theorem rename_truncates_long_path_counterexample:
  "dir_moved_from moved_from_a \<and> next_matches moved_from_a moved_to_cc \<and>
   lies_under ''/r/a'' (path (wlCache long_state ! 2)) \<and>
   length (path (wlCache long_state ! 2)) < PATH_MAX \<and>
   path (wlCache (final_state (processNextInotifyEvent quiet_env long_state 3
           moved_from_a [moved_to_cc] 64 True)) ! 2)
     = ''/r/cc/'' @ replicate 4089 CHR ''b'' \<and>
   path (wlCache (final_state (processNextInotifyEvent quiet_env long_state 3
           moved_from_a [moved_to_cc] 64 True)) ! 2)
     \<noteq> ''/r/cc'' @ drop (length ''/r/a'') (path (wlCache long_state ! 2))"
  by (simp add: long_state_def moved_from_a_def moved_to_cc_def quiet_env_def
      dir_moved_from_def next_matches_def lies_under_def
      step_defs cache_defs string_defs in_mask_defs)

text \<open>
  C1, as amended: for an in-tree rename (a directory "moved from" event followed in the
  buffer by a "moved to" event with the same cookie, both watch descriptors cached, the
  old and the new full path shorter than \<open>PATH_MAX\<close>), the step rewrites exactly the
  cached paths that are the old full path or continue it after a \<open>/\<close>: the prefix is
  replaced by the new full path, the suffix is kept, and the result is cut to
  \<open>PATH_MAX - 1\<close> characters. When every rewritten path fits in \<open>PATH_MAX - 1\<close>
  characters nothing is cut; then paths that were distinct among the slots in use stay
  distinct provided no cached path lay under the new full path, and no cached path
  lies under the old full path afterwards provided neither full path lies under the
  other. Cached paths are C strings: they contain no NUL character.
\<close>

theorem in_tree_rename_rewrites_prefix:
  assumes mf: "dir_moved_from ev" and slot: "findWatch st (ev_wd ev) = Some slot"
    and nx: "int (event_size ev) < bufSize" "rest = nextEv # later" "next_matches ev nextEv"
    and slot2: "findWatch st (ev_wd nextEv) = Some slot2"
    and res: "st' = final_state (processNextInotifyEvent e st fd ev rest bufSize firstTry)"
    and old: "old = path (wlCache st ! slot) @ ''/'' @ ev_name ev" "length old < PATH_MAX"
    and new: "new = path (wlCache st ! slot2) @ ''/'' @ ev_name nextEv" "length new < PATH_MAX"
    and nul: "\<forall>w\<in>set (wlCache st). CHR 0x00 \<notin> set (path w)"
  shows "wlCache st' =
           map (\<lambda>w. if lies_under old (path w)
                     then w\<lparr>path := take (PATH_MAX - 1) (new @ drop (length old) (path w))\<rparr>
                     else w) (wlCache st) \<and>
         ((\<forall>w\<in>set (wlCache st). length (renamed old new (path w)) < PATH_MAX) \<longrightarrow>
            wlCache st' = map (\<lambda>w. w\<lparr>path := renamed old new (path w)\<rparr>) (wlCache st) \<and>
            (distinct (active_paths st) \<and> (\<forall>p\<in>set (active_paths st). \<not> lies_under new p)
               \<longrightarrow> distinct (active_paths st')) \<and>
            (\<not> lies_under old new \<and> \<not> lies_under new old
               \<longrightarrow> (\<forall>w\<in>set (wlCache st'). \<not> lies_under old (path w))))"
proof -
  let ?rw = "rewriteCachedPaths st (path (wlCache st ! slot)) (ev_name ev)
               (path (wlCache st ! slot2)) (ev_name nextEv)"
  have step: "processNextInotifyEvent e st fd ev rest bufSize firstTry
              = finish e ?rw fd (event_size ev + event_size nextEv)"
    using process_dir_moved_from [OF mf slot] moved_from_in_tree [OF nx slot2] by simp
  have cache: "wlCache st' = wlCache ?rw"
    using finish_frame [of e ?rw fd "event_size ev + event_size nextEv"] res step by simp
  have "wlCache ?rw =
          map (\<lambda>w. if prefix_match old (path w)
                    then w\<lparr>path := take (PATH_MAX - 1) (new @ drop (length old) (path w))\<rparr>
                    else w) (wlCache st)"
    using rewriteCachedPaths_cache [of "path (wlCache st ! slot)" "ev_name ev"
        "path (wlCache st ! slot2)" "ev_name nextEv" st] old new
    by simp
  also have "\<dots> =
          map (\<lambda>w. if lies_under old (path w)
                    then w\<lparr>path := take (PATH_MAX - 1) (new @ drop (length old) (path w))\<rparr>
                    else w) (wlCache st)"
    using nul by (intro map_cong refl) (simp add: prefix_match_iff)
  finally have first: "wlCache st' =
          map (\<lambda>w. if lies_under old (path w)
                    then w\<lparr>path := take (PATH_MAX - 1) (new @ drop (length old) (path w))\<rparr>
                    else w) (wlCache st)"
    using cache by simp
  have second: "wlCache st' = map (\<lambda>w. w\<lparr>path := renamed old new (path w)\<rparr>) (wlCache st) \<and>
            (distinct (active_paths st) \<and> (\<forall>p\<in>set (active_paths st). \<not> lies_under new p)
               \<longrightarrow> distinct (active_paths st')) \<and>
            (\<not> lies_under old new \<and> \<not> lies_under new old
               \<longrightarrow> (\<forall>w\<in>set (wlCache st'). \<not> lies_under old (path w)))"
    if fits: "\<forall>w\<in>set (wlCache st). length (renamed old new (path w)) < PATH_MAX"
  proof -
    have exact: "wlCache st' = map (\<lambda>w. w\<lparr>path := renamed old new (path w)\<rparr>) (wlCache st)"
      unfolding first using fits
      by (intro map_cong refl) (auto simp: renamed_def)
    have act: "active_paths st' = map (renamed old new) (active_paths st)"
      by (simp add: active_paths_def exact filter_map comp_def)
    have dist: "distinct (active_paths st')"
      if d: "distinct (active_paths st)"
        and fresh: "\<forall>p\<in>set (active_paths st). \<not> lies_under new p"
    proof -
      have "inj_on (renamed old new) (set (active_paths st))"
        using fresh by (auto intro!: inj_onI dest: renamed_inj)
      with d show ?thesis by (simp add: act distinct_map)
    qed
    have orphan: "\<forall>w\<in>set (wlCache st'). \<not> lies_under old (path w)"
      if "\<not> lies_under old new" "\<not> lies_under new old"
      using renamed_not_under_old [OF that] by (auto simp: exact)
    from exact dist orphan show ?thesis by blast
  qed
  from first second show ?thesis by blast
qed

theorem in_tree_rename_rewrites_prefix_witness:
  "dir_moved_from moved_from_A \<and> findWatch tree_state (ev_wd moved_from_A) = Some 0 \<and>
   next_matches moved_from_A moved_to_B \<and>
   wlCache (final_state (processNextInotifyEvent quiet_env tree_state 3
              moved_from_A [moved_to_B] 64 True))
     = [\<lparr>wd = 1, path = ''/r''\<rparr>, \<lparr>wd = 2, path = ''/r/B''\<rparr>,
        \<lparr>wd = 3, path = ''/r/B/C''\<rparr>, \<lparr>wd = 4, path = ''/r/AB''\<rparr>] \<and>
   distinct (active_paths (final_state (processNextInotifyEvent quiet_env tree_state 3
              moved_from_A [moved_to_B] 64 True)))"
proof -
  have h1: "dir_moved_from moved_from_A"
    by (simp add: dir_moved_from_def moved_from_A_def in_mask_defs)
  have h2: "findWatch tree_state (ev_wd moved_from_A) = Some 0"
    by (simp add: findWatch_def tree_state_def moved_from_A_def)
  have h3: "int (event_size moved_from_A) < 64"
    by (simp add: event_size_def sizeof_inotify_event_def moved_from_A_def)
  have h4: "next_matches moved_from_A moved_to_B"
    by (simp add: next_matches_def moved_from_A_def moved_to_B_def in_mask_defs)
  have h5: "findWatch tree_state (ev_wd moved_to_B) = Some 0"
    by (simp add: findWatch_def tree_state_def moved_to_B_def)
  have o1: "''/r/A'' = path (wlCache tree_state ! 0) @ ''/'' @ ev_name moved_from_A"
    by (simp add: tree_state_def moved_from_A_def)
  have o2: "length ''/r/A'' < PATH_MAX"
    by (simp add: PATH_MAX_def)
  have n1: "''/r/B'' = path (wlCache tree_state ! 0) @ ''/'' @ ev_name moved_to_B"
    by (simp add: tree_state_def moved_to_B_def)
  have n2: "length ''/r/B'' < PATH_MAX"
    by (simp add: PATH_MAX_def)
  have nul: "\<forall>w\<in>set (wlCache tree_state). CHR 0x00 \<notin> set (path w)"
    by (simp add: tree_state_def)
  have fits: "\<forall>w\<in>set (wlCache tree_state). length (renamed ''/r/A'' ''/r/B'' (path w)) < PATH_MAX"
    by (simp add: tree_state_def renamed_def lies_under_def PATH_MAX_def)
  have d: "distinct (active_paths tree_state) \<and>
           (\<forall>p\<in>set (active_paths tree_state). \<not> lies_under ''/r/B'' p)"
    by (simp add: tree_state_def active_paths_def lies_under_def)
  note inst = in_tree_rename_rewrites_prefix [OF h1 h2 h3 refl h4 h5 refl o1 o2 n1 n2 nul,
      where e = quiet_env and fd = 3 and later = "[]" and firstTry = True]
  from inst fits have c: "wlCache (final_state (processNextInotifyEvent quiet_env tree_state 3
              moved_from_A [moved_to_B] 64 True))
     = map (\<lambda>w. w\<lparr>path := renamed ''/r/A'' ''/r/B'' (path w)\<rparr>) (wlCache tree_state)"
    by blast
  have c': "map (\<lambda>w. w\<lparr>path := renamed ''/r/A'' ''/r/B'' (path w)\<rparr>) (wlCache tree_state)
     = [\<lparr>wd = 1, path = ''/r''\<rparr>, \<lparr>wd = 2, path = ''/r/B''\<rparr>,
        \<lparr>wd = 3, path = ''/r/B/C''\<rparr>, \<lparr>wd = 4, path = ''/r/AB''\<rparr>]"
    by (simp add: tree_state_def renamed_def lies_under_def)
  from inst fits d have dd: "distinct (active_paths (final_state (processNextInotifyEvent
      quiet_env tree_state 3 moved_from_A [moved_to_B] 64 True)))"
    by blast
  from h1 h2 h4 c c' dd show ?thesis by simp
qed

section \<open>Pairing a "moved from" event with the next record\<close>

text \<open>
  C2: for a directory "moved from" event whose watch is cached, in a buffer that holds
  whole records and is no longer than the read buffer, the step looks at the record
  that follows and at nothing behind it. When that record is a "moved to" event with
  the same cookie the rename is handled as in-tree: the cached paths are rewritten and
  the length returned is that of both records (when the watch of the second record is
  not cached the step reinitialises, or aborts in the debug configuration, and a
  returned length still covers both records). Otherwise no rewrite is made: the
  subtree is removed, or the decision is deferred (the last record on a first attempt).
  The outcome is the same whatever records come after the next one.
\<close>

theorem moved_from_looks_one_record_ahead:
  assumes mf: "dir_moved_from ev" and slot: "findWatch st (ev_wd ev) = Some slot"
    and buf: "bufSize = int (buf_bytes (ev # rest))" "bufSize \<le> int INOTIFY_READ_BUF_LEN"
  shows "(\<forall>nextEv later. rest = nextEv # later \<and> next_matches ev nextEv \<longrightarrow>
            processNextInotifyEvent e st fd ev rest bufSize firstTry =
              (case findWatch st (ev_wd nextEv) of
                 Some slot2 \<Rightarrow>
                   finish e (rewriteCachedPaths st (path (wlCache st ! slot)) (ev_name ev)
                               (path (wlCache st ! slot2)) (ev_name nextEv))
                     fd (event_size ev + event_size nextEv)
               | None \<Rightarrow>
                   if abortOnCacheProblem st then Inl (createStopFileAndAbort st)
                   else reinit_and_discard e st fd) \<and>
            (\<forall>st1 fd1 n. processNextInotifyEvent e st fd ev rest bufSize firstTry
                            = Inr (st1, fd1, n)
                \<longrightarrow> event_size ev + event_size nextEv \<le> n)) \<and>
         (rest = [] \<or> \<not> next_matches ev (hd rest) \<longrightarrow>
            processNextInotifyEvent e st fd ev rest bufSize firstTry =
              (if rest \<noteq> [] \<or> \<not> firstTry then moved_out e st fd ev slot (event_size ev)
               else Inr (st, fd, SIZE_MAX))) \<and>
         (\<forall>nextEv later later'. rest = nextEv # later \<longrightarrow>
            processNextInotifyEvent e st fd ev (nextEv # later') bufSize firstTry =
            processNextInotifyEvent e st fd ev rest bufSize firstTry)"
proof -
  note step = process_dir_moved_from [OF mf slot]
  have inbuf: "int (event_size ev) < bufSize \<longleftrightarrow> rest \<noteq> []"
    using buf(1) next_in_buffer [of ev rest] by simp
  have in_tree: "processNextInotifyEvent e st fd ev rest bufSize firstTry =
              (case findWatch st (ev_wd nextEv) of
                 Some slot2 \<Rightarrow>
                   finish e (rewriteCachedPaths st (path (wlCache st ! slot)) (ev_name ev)
                               (path (wlCache st ! slot2)) (ev_name nextEv))
                     fd (event_size ev + event_size nextEv)
               | None \<Rightarrow>
                   if abortOnCacheProblem st then Inl (createStopFileAndAbort st)
                   else reinit_and_discard e st fd) \<and>
            (\<forall>st1 fd1 n. processNextInotifyEvent e st fd ev rest bufSize firstTry
                            = Inr (st1, fd1, n)
                \<longrightarrow> event_size ev + event_size nextEv \<le> n)"
    if r: "rest = nextEv # later" and m: "next_matches ev nextEv" for nextEv later
  proof -
    from r inbuf have lt: "int (event_size ev) < bufSize" by simp
    have both: "int (event_size ev + event_size nextEv) \<le> bufSize"
      using buf(1) r by (simp add: buf_bytes_Cons)
    show ?thesis
    proof (cases "findWatch st (ev_wd nextEv)")
      case None
      have eq: "processNextInotifyEvent e st fd ev rest bufSize firstTry
                = (if abortOnCacheProblem st then Inl (createStopFileAndAbort st)
                   else reinit_and_discard e st fd)"
        using step moved_from_cache_miss [OF lt r m None] by simp
      have "event_size ev + event_size nextEv \<le> n"
        if "processNextInotifyEvent e st fd ev rest bufSize firstTry = Inr (st1, fd1, n)"
        for st1 fd1 n
      proof -
        from that eq have "reinit_and_discard e st fd = Inr (st1, fd1, n)"
          by (simp split: if_splits)
        then have "n = INOTIFY_READ_BUF_LEN" by (rule reinit_and_discard_returns)
        with both buf(2) show ?thesis by simp
      qed
      with eq None show ?thesis by simp
    next
      case (Some slot2)
      have eq: "processNextInotifyEvent e st fd ev rest bufSize firstTry
                = finish e (rewriteCachedPaths st (path (wlCache st ! slot)) (ev_name ev)
                               (path (wlCache st ! slot2)) (ev_name nextEv))
                     fd (event_size ev + event_size nextEv)"
        using step moved_from_in_tree [OF lt r m Some] by simp
      have "event_size ev + event_size nextEv \<le> n"
        if "processNextInotifyEvent e st fd ev rest bufSize firstTry = Inr (st1, fd1, n)"
        for st1 fd1 n
      proof -
        from that eq have "finish e (rewriteCachedPaths st (path (wlCache st ! slot))
            (ev_name ev) (path (wlCache st ! slot2)) (ev_name nextEv))
            fd (event_size ev + event_size nextEv) = Inr (st1, fd1, n)"
          by simp
        from finish_returns [OF this] show ?thesis by simp
      qed
      with eq Some show ?thesis by simp
    qed
  qed
  have other: "processNextInotifyEvent e st fd ev rest bufSize firstTry =
              (if rest \<noteq> [] \<or> \<not> firstTry then moved_out e st fd ev slot (event_size ev)
               else Inr (st, fd, SIZE_MAX))"
    if "rest = [] \<or> \<not> next_matches ev (hd rest)"
    using step moved_from_no_match [OF that inbuf] by simp
  have indep: "processNextInotifyEvent e st fd ev (nextEv # later') bufSize firstTry =
            processNextInotifyEvent e st fd ev rest bufSize firstTry"
    if "rest = nextEv # later" for nextEv later later'
    using that process_dir_moved_from [OF mf slot, of e fd "nextEv # later'" bufSize firstTry]
      step [of e fd rest bufSize firstTry]
    by (simp add: moved_from_def)
  from in_tree other indep show ?thesis by blast
qed

theorem moved_from_looks_one_record_ahead_witness:
  "dir_moved_from moved_from_A \<and> findWatch tree_state (ev_wd moved_from_A) = Some 0 \<and>
   64 = int (buf_bytes [moved_from_A, moved_to_B]) \<and> 64 \<le> int INOTIFY_READ_BUF_LEN \<and>
   next_matches moved_from_A moved_to_B \<and>
   processNextInotifyEvent quiet_env tree_state 3 moved_from_A [moved_to_B] 64 True
     = Inr (tree_state\<lparr>wlCache :=
              [\<lparr>wd = 1, path = ''/r''\<rparr>, \<lparr>wd = 2, path = ''/r/B''\<rparr>,
               \<lparr>wd = 3, path = ''/r/B/C''\<rparr>, \<lparr>wd = 4, path = ''/r/AB''\<rparr>]\<rparr>, 3, 64)"
proof -
  have h1: "dir_moved_from moved_from_A"
    by (simp add: dir_moved_from_def moved_from_A_def in_mask_defs)
  have h2: "findWatch tree_state (ev_wd moved_from_A) = Some 0"
    by (simp add: findWatch_def tree_state_def moved_from_A_def)
  have h3: "64 = int (buf_bytes [moved_from_A, moved_to_B])"
    by (simp add: buf_bytes_def event_size_def sizeof_inotify_event_def moved_from_A_def
        moved_to_B_def)
  have h4: "64 \<le> int INOTIFY_READ_BUF_LEN"
    by (simp add: INOTIFY_READ_BUF_LEN_def sizeof_inotify_event_def)
  have h5: "next_matches moved_from_A moved_to_B"
    by (simp add: next_matches_def moved_from_A_def moved_to_B_def in_mask_defs)
  have h6: "findWatch tree_state (ev_wd moved_to_B) = Some 0"
    by (simp add: findWatch_def tree_state_def moved_to_B_def)
  from moved_from_looks_one_record_ahead [OF h1 h2 h3 h4, where e = quiet_env and fd = 3
      and firstTry = True] h5 h6
  have "processNextInotifyEvent quiet_env tree_state 3 moved_from_A [moved_to_B] 64 True
        = finish quiet_env (rewriteCachedPaths tree_state (path (wlCache tree_state ! 0))
            (ev_name moved_from_A) (path (wlCache tree_state ! 0)) (ev_name moved_to_B))
            3 (event_size moved_from_A + event_size moved_to_B)"
    by simp
  also have "\<dots> = Inr (tree_state\<lparr>wlCache :=
              [\<lparr>wd = 1, path = ''/r''\<rparr>, \<lparr>wd = 2, path = ''/r/B''\<rparr>,
               \<lparr>wd = 3, path = ''/r/B/C''\<rparr>, \<lparr>wd = 4, path = ''/r/AB''\<rparr>]\<rparr>, 3, 64)"
    by (simp add: tree_state_def moved_from_A_def moved_to_B_def
        step_defs cache_defs string_defs)
  finally show ?thesis using h1 h2 h3 h4 h5 by blast
qed

section \<open>Deferring an unmatched "moved from" event\<close>

text \<open>
  C3, the claim as stated fails: a first attempt defers only when no record follows in
  the buffer. Below, the directory "moved from" event for \<open>/r/A\<close> is followed by an
  unrelated record; there is no matching "moved to" record and it is the first attempt,
  yet the step removes \<open>/r/A\<close> and \<open>/r/A/C\<close> with their watches and returns the length
  of one record instead of asking for another read.
\<close>

theorem unmatched_next_record_not_deferred_counterexample:
  "dir_moved_from moved_from_A \<and> findWatch tree_state (ev_wd moved_from_A) = Some 0 \<and>
   \<not> next_matches moved_from_A created_Z \<and>
   processNextInotifyEvent quiet_env tree_state 3 moved_from_A [created_Z] 64 True
     = Inr (tree_state\<lparr>wlCache :=
              [\<lparr>wd = 1, path = ''/r''\<rparr>, \<lparr>wd = -1, path = ''''\<rparr>,
               \<lparr>wd = -1, path = ''''\<rparr>, \<lparr>wd = 4, path = ''/r/AB''\<rparr>],
              trace := [A_rm_watch 3 2, A_rm_watch 3 3]\<rparr>, 3, 32) \<and>
   processNextInotifyEvent quiet_env tree_state 3 moved_from_A [created_Z] 64 True
     \<noteq> Inr (tree_state, 3, SIZE_MAX)"
  by (simp add: tree_state_def moved_from_A_def created_Z_def quiet_env_def
      dir_moved_from_def next_matches_def
      step_defs cache_defs string_defs in_mask_defs upt_conv_Cons)

text \<open>
  C3, as amended: a directory "moved from" event that is the last record of the data
  read (no record follows it in the buffer) and is processed for the first time is not
  acted on: the step returns \<open>-1\<close> with the cache, the roots and the trace untouched,
  and the loop of \<^verbatim>\<open>processInotifyEvents\<close> then makes the supplementary read and
  processes the record again with the first-attempt flag cleared. When a record
  follows that is not the matching "moved to" event, the subtree is removed at once,
  on a first attempt too.
\<close>

theorem hanging_moved_from_is_deferred:
  assumes mf: "dir_moved_from ev" and slot: "findWatch st (ev_wd ev) = Some slot"
    and last: "bufSize \<le> int (event_size ev)"
  shows "processNextInotifyEvent e st fd ev rest bufSize True = Inr (st, fd, SIZE_MAX) \<and>
         int_of_size_t SIZE_MAX = -1 \<and>
         (envs k = e \<and> 0 < bufSize \<longrightarrow>
            event_loop (Suc fuel) envs k st fd cnt (ev # rest) bufSize True reads =
              (case next_read reads of
                 (Read_Error, rs) \<Rightarrow> Some (Inl (Exit_Failure, st))
               | (Read_EINTR, rs) \<Rightarrow>
                   event_loop fuel envs (Suc k) st fd (cnt + 1) (ev # rest) (bufSize - 1)
                     False rs
               | (Read_Data new, rs) \<Rightarrow>
                   if new = [] then Some (Inl (Exit_Failure, st))
                   else if bufSize \<noteq> int (buf_bytes (ev # rest))
                   then Some (Inl (Undefined_Read, st))
                   else event_loop fuel envs (Suc k) st fd (cnt + 1) ((ev # rest) @ new)
                          (bufSize + int (buf_bytes new)) False rs)) \<and>
         (\<forall>bufSize' firstTry.
            int (event_size ev) < bufSize' \<and> rest \<noteq> [] \<and> \<not> next_matches ev (hd rest) \<longrightarrow>
            processNextInotifyEvent e st fd ev rest bufSize' firstTry
              = moved_out e st fd ev slot (event_size ev))"
proof -
  have dfr: "processNextInotifyEvent e st fd ev rest bufSize True = Inr (st, fd, SIZE_MAX)"
    using process_dir_moved_from [OF mf slot, of e fd rest bufSize True] last
    by (simp add: moved_from_def)
  have conv: "int_of_size_t SIZE_MAX = -1"
    by (simp add: int_of_size_t_def SIZE_MAX_def)
  have loop: "event_loop (Suc fuel) envs k st fd cnt (ev # rest) bufSize True reads =
              (case next_read reads of
                 (Read_Error, rs) \<Rightarrow> Some (Inl (Exit_Failure, st))
               | (Read_EINTR, rs) \<Rightarrow>
                   event_loop fuel envs (Suc k) st fd (cnt + 1) (ev # rest) (bufSize - 1)
                     False rs
               | (Read_Data new, rs) \<Rightarrow>
                   if new = [] then Some (Inl (Exit_Failure, st))
                   else if bufSize \<noteq> int (buf_bytes (ev # rest))
                   then Some (Inl (Undefined_Read, st))
                   else event_loop fuel envs (Suc k) st fd (cnt + 1) ((ev # rest) @ new)
                          (bufSize + int (buf_bytes new)) False rs)"
    if "envs k = e \<and> 0 < bufSize"
    using that dfr conv by simp
  have out: "processNextInotifyEvent e st fd ev rest bufSize' firstTry
              = moved_out e st fd ev slot (event_size ev)"
    if "int (event_size ev) < bufSize' \<and> rest \<noteq> [] \<and> \<not> next_matches ev (hd rest)"
    for bufSize' firstTry
    using process_dir_moved_from [OF mf slot, of e fd rest bufSize' firstTry] that
    by (auto simp: moved_from_def next_matches_def)
  from dfr conv loop out show ?thesis by blast
qed

theorem hanging_moved_from_is_deferred_witness:
  "dir_moved_from moved_from_A \<and> findWatch tree_state (ev_wd moved_from_A) = Some 0 \<and>
   (32::int) \<le> int (event_size moved_from_A) \<and>
   processNextInotifyEvent quiet_env tree_state 3 moved_from_A [] 32 True
     = Inr (tree_state, 3, SIZE_MAX) \<and>
   event_loop (Suc (Suc (Suc 0))) (\<lambda>k. quiet_env) 0 tree_state 3 1 [moved_from_A] 32 True
       [Read_Data [moved_to_B]]
     = Some (Inr (tree_state\<lparr>wlCache :=
              [\<lparr>wd = 1, path = ''/r''\<rparr>, \<lparr>wd = 2, path = ''/r/B''\<rparr>,
               \<lparr>wd = 3, path = ''/r/B/C''\<rparr>, \<lparr>wd = 4, path = ''/r/AB''\<rparr>]\<rparr>, 3, 2))"
proof -
  have h1: "dir_moved_from moved_from_A"
    by (simp add: dir_moved_from_def moved_from_A_def in_mask_defs)
  have h2: "findWatch tree_state (ev_wd moved_from_A) = Some 0"
    by (simp add: findWatch_def tree_state_def moved_from_A_def)
  have h3: "(32::int) \<le> int (event_size moved_from_A)"
    by (simp add: event_size_def sizeof_inotify_event_def moved_from_A_def)
  note inst = hanging_moved_from_is_deferred [OF h1 h2 h3, where e = quiet_env and fd = 3
      and rest = "[]" and fuel = "Suc (Suc 0)" and k = 0 and cnt = 1 and reads = "[Read_Data [moved_to_B]]"]
  from inst have d: "processNextInotifyEvent quiet_env tree_state 3 moved_from_A [] 32 True
     = Inr (tree_state, 3, SIZE_MAX)"
    by blast
  have l: "event_loop (Suc (Suc (Suc 0))) (\<lambda>k. quiet_env) 0 tree_state 3 1 [moved_from_A] 32 True
       [Read_Data [moved_to_B]]
     = Some (Inr (tree_state\<lparr>wlCache :=
              [\<lparr>wd = 1, path = ''/r''\<rparr>, \<lparr>wd = 2, path = ''/r/B''\<rparr>,
               \<lparr>wd = 3, path = ''/r/B/C''\<rparr>, \<lparr>wd = 4, path = ''/r/AB''\<rparr>]\<rparr>, 3, 2))"
    by (simp add: tree_state_def moved_from_A_def moved_to_B_def next_read_def buf_bytes_def
        int_of_size_t_def step_defs cache_defs string_defs in_mask_defs)
  from h1 h2 h3 d l show ?thesis by blast
qed

section \<open>A watch descriptor that is not in the cache\<close>

text \<open>
  C4: when a lookup of the step finds no slot for the watch descriptor, the step does
  nothing else with the event. In the debug configuration it creates the stop file,
  dumps the cache to the log and aborts. Otherwise it reinitialises and, when that
  returns, returns the length of the whole read buffer; the loop of
  \<^verbatim>\<open>processInotifyEvents\<close> then ends without looking at the records that remain.
\<close>

theorem cache_miss_reinitializes_or_aborts:
  assumes miss: "cache_miss st ev rest bufSize"
  shows "processNextInotifyEvent e st fd ev rest bufSize firstTry =
           (if abortOnCacheProblem st
            then Inl (Aborted, st\<lparr>trace := trace st @
                         [A_open_stop_file, A_dump (active_entries (wlCache st))]\<rparr>)
            else case reinitialize e st fd of
                   Inl h \<Rightarrow> Inl h
                 | Inr (st1, fd1) \<Rightarrow> Inr (st1, fd1, INOTIFY_READ_BUF_LEN)) \<and>
         (envs k = e \<and>
            \<not> abortOnCacheProblem st \<and> 0 < bufSize \<and> bufSize \<le> int INOTIFY_READ_BUF_LEN \<and>
            reinitialize e st fd = Inr (st1, fd1) \<longrightarrow>
            event_loop (Suc (Suc fuel)) envs k st fd cnt (ev # rest) bufSize firstTry reads
              = Some (Inr (st1, fd1, cnt)))"
proof -
  have abort: "createStopFileAndAbort st =
      (Aborted, st\<lparr>trace := trace st @
                     [A_open_stop_file, A_dump (active_entries (wlCache st))]\<rparr>)"
    by (simp add: createStopFileAndAbort_def dumpCacheToLog_def)
  have step: "processNextInotifyEvent e st fd ev rest bufSize firstTry =
           (if abortOnCacheProblem st
            then Inl (Aborted, st\<lparr>trace := trace st @
                         [A_open_stop_file, A_dump (active_entries (wlCache st))]\<rparr>)
            else case reinitialize e st fd of
                   Inl h \<Rightarrow> Inl h
                 | Inr (st1, fd1) \<Rightarrow> Inr (st1, fd1, INOTIFY_READ_BUF_LEN))"
    using miss unfolding cache_miss_def
  proof
    assume "ev_wd ev \<noteq> -1 \<and> ev_mask ev AND IN_IGNORED = 0 \<and> findWatch st (ev_wd ev) = None"
    then show ?thesis
      by (simp add: processNextInotifyEvent_def findWatchChecked_def abort
          reinit_and_discard_def)
  next
    assume a: "dir_moved_from ev \<and> findWatch st (ev_wd ev) \<noteq> None \<and>
      int (event_size ev) < bufSize \<and> rest \<noteq> [] \<and> next_matches ev (hd rest) \<and>
      findWatch st (ev_wd (hd rest)) = None"
    then obtain slot where slot: "findWatch st (ev_wd ev) = Some slot" by auto
    from a obtain nextEv later where r: "rest = nextEv # later" by (cases rest) auto
    from a r have "moved_from e st fd ev rest bufSize firstTry slot (event_size ev)
         = (if abortOnCacheProblem st then Inl (createStopFileAndAbort st)
            else reinit_and_discard e st fd)"
      by (intro moved_from_cache_miss [where nextEv = nextEv and later = later]) simp_all
    with a slot show ?thesis
      by (simp add: process_dir_moved_from abort reinit_and_discard_def)
  qed
  have loop: "event_loop (Suc (Suc fuel)) envs k st fd cnt (ev # rest) bufSize firstTry reads
              = Some (Inr (st1, fd1, cnt))"
    if "envs k = e \<and>
        \<not> abortOnCacheProblem st \<and> 0 < bufSize \<and> bufSize \<le> int INOTIFY_READ_BUF_LEN \<and>
        reinitialize e st fd = Inr (st1, fd1)"

  proof -
    from that step have "processNextInotifyEvent (envs k) st fd ev rest bufSize firstTry
         = Inr (st1, fd1, INOTIFY_READ_BUF_LEN)"
      by simp
    with that show ?thesis
      by (intro loop_ends_after_discard) simp_all
  qed
  from step loop show ?thesis by blast
qed

theorem cache_miss_reinitializes_or_aborts_witness:
  "cache_miss stale_state moved_from_A [moved_to_B] 64 \<and>
   (\<exists>st1. processNextInotifyEvent quiet_env stale_state 3 moved_from_A [moved_to_B] 64 True
             = Inr (st1, 5, INOTIFY_READ_BUF_LEN) \<and>
          active_paths st1 = [''/r'', ''/r/B''] \<and>
          event_loop (Suc (Suc 0)) (\<lambda>k. quiet_env) 0 stale_state 3 1 [moved_from_A, moved_to_B] 64 True []
            = Some (Inr (st1, 5, 1))) \<and>
   cache_miss (stale_state\<lparr>abortOnCacheProblem := True\<rparr>) moved_from_A [moved_to_B] 64 \<and>
   processNextInotifyEvent quiet_env (stale_state\<lparr>abortOnCacheProblem := True\<rparr>) 3
       moved_from_A [moved_to_B] 64 True
     = Inl (Aborted, stale_state\<lparr>abortOnCacheProblem := True,
              trace := [A_open_stop_file,
                        A_dump [(0, \<lparr>wd = 8, path = ''/r''\<rparr>), (1, \<lparr>wd = 9, path = ''/r/old''\<rparr>)]]\<rparr>)"
proof -
  have m1: "cache_miss stale_state moved_from_A [moved_to_B] 64"
    by (simp add: cache_miss_def stale_state_def moved_from_A_def findWatch_def in_mask_defs)
  have m2: "cache_miss (stale_state\<lparr>abortOnCacheProblem := True\<rparr>) moved_from_A [moved_to_B] 64"
    by (simp add: cache_miss_def stale_state_def moved_from_A_def findWatch_def in_mask_defs)
  obtain st1 where re: "reinitialize quiet_env stale_state 3 = Inr (st1, 5)"
    and act: "active_paths st1 = [''/r'', ''/r/B'']"
    by (simp add: walk_defs quiet_env_def stale_state_def cache_defs string_defs in_mask_defs
        active_paths_def replicate_eval)
  have cfg: "\<not> abortOnCacheProblem stale_state \<and> (0::int) < 64 \<and>
             64 \<le> int INOTIFY_READ_BUF_LEN"
    by (simp add: stale_state_def INOTIFY_READ_BUF_LEN_def sizeof_inotify_event_def)
  note inst = cache_miss_reinitializes_or_aborts [OF m1, where e = quiet_env and fd = 3
      and firstTry = True and envs = "\<lambda>k. quiet_env" and k = 0 and ?st1.0 = st1
      and ?fd1.0 = 5 and fuel = 0 and cnt = 1 and reads = "[]"]
  from inst re cfg
  have s1: "processNextInotifyEvent quiet_env stale_state 3 moved_from_A [moved_to_B] 64 True
             = Inr (st1, 5, INOTIFY_READ_BUF_LEN)"
    by simp
  from inst re cfg
  have l1: "event_loop (Suc (Suc 0)) (\<lambda>k. quiet_env) 0 stale_state 3 1
              [moved_from_A, moved_to_B] 64 True [] = Some (Inr (st1, 5, 1))"
    by (simp del: event_loop.simps)
  have s2: "processNextInotifyEvent quiet_env (stale_state\<lparr>abortOnCacheProblem := True\<rparr>) 3
       moved_from_A [moved_to_B] 64 True
     = Inl (Aborted, stale_state\<lparr>abortOnCacheProblem := True,
              trace := [A_open_stop_file,
                        A_dump [(0, \<lparr>wd = 8, path = ''/r''\<rparr>), (1, \<lparr>wd = 9, path = ''/r/old''\<rparr>)]]\<rparr>)"
    using cache_miss_reinitializes_or_aborts [OF m2, where e = quiet_env and fd = 3
        and firstTry = True]
    by (simp add: stale_state_def active_entries_def upt_conv_Cons)
  from m1 m2 s1 act l1 s2 show ?thesis
    by simp
qed

section \<open>Queue overflow\<close>

text \<open>
  C5: for the queue overflow event the step is the reinitialisation and nothing else,
  whatever the cache, the following records and the first-attempt flag are. The
  reinitialisation closes the old descriptor (a valid one), opens a new one, empties
  the cache and walks every non-zapped root: afterwards the roots are as before, the
  system calls made are the close, the \<^verbatim>\<open>inotify_init()\<close> and watches added on the new
  descriptor, every used slot of the cache stems from a directory visited by these
  walks, and every visited directory that got a watch has a slot. The length returned
  is that of the read buffer, so the loop of \<^verbatim>\<open>processInotifyEvents\<close> ends without
  processing the records that remain.
\<close>

theorem queue_overflow_reinitializes:
  assumes ov: "queue_overflow ev"
  shows "processNextInotifyEvent e st fd ev rest bufSize firstTry =
           (case reinitialize e st fd of
              Inl h \<Rightarrow> Inl h
            | Inr (st1, fd1) \<Rightarrow> finish e st1 fd1 INOTIFY_READ_BUF_LEN) \<and>
         (reinitialize e st fd = Inr (st1, fd1) \<and> 0 \<le> fd \<longrightarrow>
            fd1 = env_inotify_init e \<and> fd1 \<noteq> -1 \<and> rootDirPaths st1 = rootDirPaths st \<and>
            (\<exists>adds. trace st1 = trace st @ [A_close fd, A_inotify_init] @ adds \<and>
                     (\<forall>a\<in>set adds. added_watch fd1 a)) \<and>
            (\<forall>w\<in>set (wlCache st1). wd w \<noteq> -1 \<longrightarrow>
                (\<exists>f\<in>set (walked_entries e st). w = entry_of f)) \<and>
            (\<forall>f\<in>set (walked_entries e st). ftw_wd f \<noteq> -1 \<longrightarrow>
                findWatch st1 (ftw_wd f) \<noteq> None)) \<and>
         (envs k = e \<and> 0 < bufSize \<and> bufSize \<le> int INOTIFY_READ_BUF_LEN \<and>
          processNextInotifyEvent e st fd ev rest bufSize firstTry = Inr (st2, fd2, n) \<longrightarrow>
            n = INOTIFY_READ_BUF_LEN \<and>
            event_loop (Suc (Suc fuel)) envs k st fd cnt (ev # rest) bufSize firstTry reads
              = Some (Inr (st2, fd2, cnt)))"
proof -
  from ov have m: "ev_wd ev = -1" "ev_mask ev = IN_Q_OVERFLOW"
    by (simp_all add: queue_overflow_def)
  have step: "processNextInotifyEvent e st fd ev rest bufSize firstTry =
           (case reinitialize e st fd of
              Inl h \<Rightarrow> Inl h
            | Inr (st1, fd1) \<Rightarrow> finish e st1 fd1 INOTIFY_READ_BUF_LEN)"
    using m by (simp add: processNextInotifyEvent_def dispatch_event_def in_mask_defs)
  have rebuild: "fd1 = env_inotify_init e \<and> fd1 \<noteq> -1 \<and> rootDirPaths st1 = rootDirPaths st \<and>
            (\<exists>adds. trace st1 = trace st @ [A_close fd, A_inotify_init] @ adds \<and>
                     (\<forall>a\<in>set adds. added_watch fd1 a)) \<and>
            (\<forall>w\<in>set (wlCache st1). wd w \<noteq> -1 \<longrightarrow>
                (\<exists>f\<in>set (walked_entries e st). w = entry_of f)) \<and>
            (\<forall>f\<in>set (walked_entries e st). ftw_wd f \<noteq> -1 \<longrightarrow>
                findWatch st1 (ftw_wd f) \<noteq> None)"
    if "reinitialize e st fd = Inr (st1, fd1) \<and> 0 \<le> fd"
    using that reinitialize_Inr [of e st fd st1 fd1] by blast
  have loop: "n = INOTIFY_READ_BUF_LEN \<and>
            event_loop (Suc (Suc fuel)) envs k st fd cnt (ev # rest) bufSize firstTry reads
              = Some (Inr (st2, fd2, cnt))"
    if a: "envs k = e \<and> 0 < bufSize \<and> bufSize \<le> int INOTIFY_READ_BUF_LEN \<and>
          processNextInotifyEvent e st fd ev rest bufSize firstTry = Inr (st2, fd2, n)"
  proof -
    from a step obtain st1 fd1 where "finish e st1 fd1 INOTIFY_READ_BUF_LEN = Inr (st2, fd2, n)"
      by (auto split: sum.splits)
    from finish_returns [OF this] have n: "n = INOTIFY_READ_BUF_LEN" by simp
    with a have "processNextInotifyEvent (envs k) st fd ev rest bufSize firstTry
                 = Inr (st2, fd2, INOTIFY_READ_BUF_LEN)"
      by simp
    with a n show ?thesis
      by (intro conjI loop_ends_after_discard) simp_all
  qed
  from step rebuild loop show ?thesis by blast
qed

theorem queue_overflow_reinitializes_witness:
  "queue_overflow overflow_event \<and>
   (\<exists>st1. processNextInotifyEvent quiet_env tree_state 3 overflow_event [created_Z] 48 True
             = Inr (st1, 5, INOTIFY_READ_BUF_LEN) \<and>
          active_paths st1 = [''/r'', ''/r/B''] \<and>
          trace st1 = [A_close 3, A_inotify_init,
                       A_add_watch 5 ''/r'' (watch_flags tree_state ''/r''),
                       A_add_watch 5 ''/r/B'' (watch_flags tree_state ''/r/B'')] \<and>
          event_loop (Suc (Suc 0)) (\<lambda>k. quiet_env) 0 tree_state 3 1
              [overflow_event, created_Z] 48 True []
            = Some (Inr (st1, 5, 1)))"
proof -
  have h: "queue_overflow overflow_event"
    by (simp add: queue_overflow_def overflow_event_def)
  obtain st1 where re: "reinitialize quiet_env tree_state 3 = Inr (st1, 5)"
    and act: "active_paths st1 = [''/r'', ''/r/B'']"
    and tr: "trace st1 = [A_close 3, A_inotify_init,
                       A_add_watch 5 ''/r'' (watch_flags tree_state ''/r''),
                       A_add_watch 5 ''/r/B'' (watch_flags tree_state ''/r/B'')]"
    and flags: "\<not> checkCache st1 \<and> \<not> dumpCache st1"
    by (simp add: walk_defs quiet_env_def tree_state_def cache_defs string_defs in_mask_defs
        active_paths_def replicate_eval)
  note inst = queue_overflow_reinitializes [OF h, where e = quiet_env and st = tree_state
      and fd = 3 and rest = "[created_Z]" and bufSize = 48 and firstTry = True
      and envs = "\<lambda>k. quiet_env" and k = 0 and ?st2.0 = st1 and ?fd2.0 = 5
      and n = INOTIFY_READ_BUF_LEN and fuel = 0 and cnt = 1 and reads = "[]"]
  from inst re flags
  have s: "processNextInotifyEvent quiet_env tree_state 3 overflow_event [created_Z] 48 True
             = Inr (st1, 5, INOTIFY_READ_BUF_LEN)"
    by (simp add: finish_unchecked del: event_loop.simps)
  have cfg: "(0::int) < 48 \<and> 48 \<le> int INOTIFY_READ_BUF_LEN"
    by (simp add: INOTIFY_READ_BUF_LEN_def sizeof_inotify_event_def)
  from inst s cfg
  have l: "event_loop (Suc (Suc 0)) (\<lambda>k. quiet_env) 0 tree_state 3 1
              [overflow_event, created_Z] 48 True [] = Some (Inr (st1, 5, 1))"
    by (simp del: event_loop.simps)
  from h s act tr l show ?thesis by blast
qed

section \<open>The supplementary read and the end of the loop\<close>

text \<open>
  C6: a step made with the first-attempt flag cleared never returns \<open>-1\<close>, whatever
  the event, the cache and the buffer are; the loop clears the flag exactly after a
  step that returned \<open>-1\<close>, makes the supplementary read and processes the same record
  again. So between two supplementary reads at least one record is consumed: on
  records as the kernel sends them, the loop over the data of a read returns or ends
  the process within \<open>2 * n + 2\<close> steps, where \<open>n\<close> counts the records in the buffer
  and those the supplementary reads deliver, and it makes at most \<open>n\<close> supplementary
  reads. The same holds for \<^verbatim>\<open>processInotifyEvents\<close> as a whole, which counts its
  first read too.
\<close>

theorem supplementary_read_once_and_loop_terminates:
  assumes wf1: "\<forall>ev\<in>set evs. kernel_event ev"
    and wf2: "\<forall>ev\<in>set (pending_events reads). kernel_event ev"
    and fuel: "2 * (length evs + length (pending_events reads)) + 1 < fuel"
  shows "(\<exists>res. event_loop fuel envs k st fd cnt evs avail True reads = Some res \<and>
            (\<forall>st' fd' cnt'. res = Inr (st', fd', cnt') \<longrightarrow>
                cnt' \<le> cnt + length evs + length (pending_events reads))) \<and>
         processNextInotifyEvent e st0 fd0 ev rest bufSize False \<noteq> Inr (st1, fd1, SIZE_MAX) \<and>
         (0 < bufSize \<and>
          processNextInotifyEvent (envs k) st0 fd0 ev rest bufSize firstTry
            = Inr (st1, fd1, SIZE_MAX) \<longrightarrow>
            firstTry \<and>
            event_loop (Suc n) envs k st0 fd0 cnt (ev # rest) bufSize firstTry reads =
              (case next_read reads of
                 (Read_Error, rs) \<Rightarrow> Some (Inl (Exit_Failure, st1))
               | (Read_EINTR, rs) \<Rightarrow>
                   event_loop n envs (Suc k) st1 fd1 (cnt + 1) (ev # rest) (bufSize - 1) False rs
               | (Read_Data new, rs) \<Rightarrow>
                   if new = [] then Some (Inl (Exit_Failure, st1))
                   else if bufSize \<noteq> int (buf_bytes (ev # rest))
                   then Some (Inl (Undefined_Read, st1))
                   else event_loop n envs (Suc k) st1 fd1 (cnt + 1) ((ev # rest) @ new)
                          (bufSize + int (buf_bytes new)) False rs)) \<and>
         (\<exists>res. processInotifyEvents fuel envs st fd cnt reads = Some res \<and>
            (\<forall>st' fd' cnt'. res = Inr (st', fd', cnt') \<longrightarrow>
                cnt' \<le> cnt + 1 + length (pending_events reads)))"
proof -
  have loop: "\<exists>res. event_loop fuel envs k st fd cnt evs avail True reads = Some res \<and>
            (\<forall>st' fd' cnt'. res = Inr (st', fd', cnt') \<longrightarrow>
                cnt' \<le> cnt + length evs + length (pending_events reads))"
    using event_loop_terminates [OF wf1 wf2, where firstTry = True and fuel = fuel
        and envs = envs and k = k and st = st and fd = fd and cnt = cnt and avail = avail]
      fuel
    by simp
  have retry: "processNextInotifyEvent e st0 fd0 ev rest bufSize False \<noteq> Inr (st1, fd1, SIZE_MAX)"
    by (rule never_defers_on_retry)
  have clear: "firstTry \<and>
            event_loop (Suc n) envs k st0 fd0 cnt (ev # rest) bufSize firstTry reads =
              (case next_read reads of
                 (Read_Error, rs) \<Rightarrow> Some (Inl (Exit_Failure, st1))
               | (Read_EINTR, rs) \<Rightarrow>
                   event_loop n envs (Suc k) st1 fd1 (cnt + 1) (ev # rest) (bufSize - 1) False rs
               | (Read_Data new, rs) \<Rightarrow>
                   if new = [] then Some (Inl (Exit_Failure, st1))
                   else if bufSize \<noteq> int (buf_bytes (ev # rest))
                   then Some (Inl (Undefined_Read, st1))
                   else event_loop n envs (Suc k) st1 fd1 (cnt + 1) ((ev # rest) @ new)
                          (bufSize + int (buf_bytes new)) False rs)"
    if a: "0 < bufSize \<and>
          processNextInotifyEvent (envs k) st0 fd0 ev rest bufSize firstTry
            = Inr (st1, fd1, SIZE_MAX)"
  proof -
    have first: "firstTry"
      using a never_defers_on_retry [of "envs k" st0 fd0 ev rest bufSize st1 fd1]
      by (cases firstTry) auto
    have conv: "int_of_size_t SIZE_MAX = -1"
      by (simp add: int_of_size_t_def SIZE_MAX_def)
    from a conv first show ?thesis by simp
  qed
  have whole: "\<exists>res. processInotifyEvents fuel envs st fd cnt reads = Some res \<and>
            (\<forall>st' fd' cnt'. res = Inr (st', fd', cnt') \<longrightarrow>
                cnt' \<le> cnt + 1 + length (pending_events reads))"
  proof -
    obtain rr rs where nr: "next_read reads = (rr, rs)" by (cases "next_read reads") auto
    note pend = pending_next_read [OF nr]
    show ?thesis
    proof (cases rr)
      case Read_Error
      with nr show ?thesis by (simp add: processInotifyEvents_def)
    next
      case Read_EINTR
      with nr show ?thesis by (simp add: processInotifyEvents_def)
    next
      case (Read_Data evs0)
      show ?thesis
      proof (cases "evs0 = []")
        case True
        with nr Read_Data show ?thesis by (simp add: processInotifyEvents_def)
      next
        case False
        have w0: "\<forall>ev\<in>set evs0. kernel_event ev"
          and wrs: "\<forall>ev\<in>set (pending_events rs). kernel_event ev"
          using wf2 pend Read_Data by auto
        have f0: "2 * (length evs0 + length (pending_events rs)) + (if True then 1 else 0) < fuel"
          using fuel pend Read_Data by simp
        from event_loop_terminates [OF w0 wrs _ f0, where envs = envs and k = 0 and st = st
            and fd = fd and cnt = "cnt + 1" and avail = "int (buf_bytes evs0)"]
        obtain res where res: "event_loop fuel envs 0 st fd (cnt + 1) evs0
                                 (int (buf_bytes evs0)) True rs = Some res"
          and bound: "\<forall>st' fd' cnt'. res = Inr (st', fd', cnt') \<longrightarrow>
                        cnt' \<le> cnt + 1 + length evs0 + length (pending_events rs)"
          by auto
        from bound pend Read_Data
        have "\<forall>st' fd' cnt'. res = Inr (st', fd', cnt') \<longrightarrow>
                cnt' \<le> cnt + 1 + length (pending_events reads)"
          by (simp add: add.assoc)
        with res nr Read_Data False show ?thesis
          by (simp add: processInotifyEvents_def)
      qed
    qed
  qed
  from loop retry clear whole show ?thesis by blast
qed

theorem supplementary_read_once_and_loop_terminates_witness:
  "kernel_event moved_from_A \<and> kernel_event moved_to_B \<and>
   pending_events [Read_Data [moved_to_B]] = [moved_to_B] \<and>
   (\<exists>res. event_loop 6 (\<lambda>k. quiet_env) 0 tree_state 3 1 [moved_from_A] 32 True
             [Read_Data [moved_to_B]] = Some res \<and>
          (\<forall>st' fd' cnt'. res = Inr (st', fd', cnt') \<longrightarrow> cnt' \<le> 1 + 1 + 1)) \<and>
   event_loop (Suc (Suc (Suc 0))) (\<lambda>k. quiet_env) 0 tree_state 3 1 [moved_from_A] 32 True
       [Read_Data [moved_to_B]]
     = Some (Inr (tree_state\<lparr>wlCache :=
              [\<lparr>wd = 1, path = ''/r''\<rparr>, \<lparr>wd = 2, path = ''/r/B''\<rparr>,
               \<lparr>wd = 3, path = ''/r/B/C''\<rparr>, \<lparr>wd = 4, path = ''/r/AB''\<rparr>]\<rparr>, 3, 2))"
proof -
  have k1: "kernel_event moved_from_A" and k2: "kernel_event moved_to_B"
    by (simp_all add: kernel_event_def moved_from_A_def moved_to_B_def NAME_MAX_def)
  have p: "pending_events [Read_Data [moved_to_B]] = [moved_to_B]"
    by (simp add: pending_events_def)
  have w1: "\<forall>ev\<in>set [moved_from_A]. kernel_event ev" using k1 by simp
  have w2: "\<forall>ev\<in>set (pending_events [Read_Data [moved_to_B]]). kernel_event ev"
    using k2 p by simp
  have f: "2 * (length [moved_from_A] + length (pending_events [Read_Data [moved_to_B]])) + 1
           < (6::nat)"
    using p by simp
  from supplementary_read_once_and_loop_terminates [OF w1 w2 f,
      where envs = "\<lambda>k. quiet_env" and k = 0 and st = tree_state and fd = 3 and cnt = 1
        and avail = 32]
  have t: "\<exists>res. event_loop 6 (\<lambda>k. quiet_env) 0 tree_state 3 1 [moved_from_A] 32 True
             [Read_Data [moved_to_B]] = Some res \<and>
          (\<forall>st' fd' cnt'. res = Inr (st', fd', cnt') \<longrightarrow> cnt' \<le> 1 + 1 + 1)"
    using p by (simp del: event_loop.simps)
  have l: "event_loop (Suc (Suc (Suc 0))) (\<lambda>k. quiet_env) 0 tree_state 3 1 [moved_from_A] 32
       True [Read_Data [moved_to_B]]
     = Some (Inr (tree_state\<lparr>wlCache :=
              [\<lparr>wd = 1, path = ''/r''\<rparr>, \<lparr>wd = 2, path = ''/r/B''\<rparr>,
               \<lparr>wd = 3, path = ''/r/B/C''\<rparr>, \<lparr>wd = 4, path = ''/r/AB''\<rparr>]\<rparr>, 3, 2))"
    by (simp add: tree_state_def moved_from_A_def moved_to_B_def next_read_def buf_bytes_def
        int_of_size_t_def step_defs cache_defs string_defs in_mask_defs)
  from k1 k2 p t l show ?thesis by blast
qed

section \<open>Root membership\<close>

text \<open>
  C7, the claim as stated fails: the root path strings are never rewritten. With the
  roots \<open>/a\<close> and \<open>/a/b\<close>, the rename of \<open>/a/b\<close> to \<open>/a/c\<close> is observed through the watch
  on \<open>/a\<close> and rewrites the cached path of \<open>/a/b\<close> to \<open>/a/c\<close>; afterwards the test
  still answers true for the old string \<open>/a/b\<close> and false for the rewritten \<open>/a/c\<close>.
\<close>

theorem root_strings_not_rewritten_counterexample:
  "isRootDirPath nested_state (path (wlCache nested_state ! 1)) \<and>
   path (wlCache nested_state ! 1) = ''/a/b'' \<and>
   path (wlCache (final_state (processNextInotifyEvent quiet_env nested_state 3
           moved_from_b [moved_to_c] 64 True)) ! 1) = ''/a/c'' \<and>
   \<not> isRootDirPath (final_state (processNextInotifyEvent quiet_env nested_state 3
           moved_from_b [moved_to_c] 64 True)) ''/a/c'' \<and>
   isRootDirPath (final_state (processNextInotifyEvent quiet_env nested_state 3
           moved_from_b [moved_to_c] 64 True)) ''/a/b''"
  by (simp add: nested_state_def moved_from_b_def moved_to_c_def quiet_env_def
      step_defs cache_defs string_defs in_mask_defs)

text \<open>
  C7, as amended: \<open>isRootDirPath\<close> answers true exactly for the strings that are
  non-zapped entries of the root list, compared character by character; the rewrite
  of cached paths leaves the root list as it is, so the test answers the same before
  and after a rename.
\<close>

theorem isRootDirPath_exact_string_match:
  "(isRootDirPath st p \<longleftrightarrow> Some p \<in> set (rootDirPaths st)) \<and>
   rootDirPaths (rewriteCachedPaths st oldP oldN newP newN) = rootDirPaths st \<and>
   (isRootDirPath (rewriteCachedPaths st oldP oldN newP newN) p \<longleftrightarrow> isRootDirPath st p)"
proof -
  have roots: "rootDirPaths (rewriteCachedPaths st oldP oldN newP newN) = rootDirPaths st"
    by (simp add: rewriteCachedPaths_frame)
  then show ?thesis
    by (simp add: isRootDirPath_iff)
qed

section \<open>Zapping a root\<close>

text \<open>
  C8: zapping a root keeps the root list at its length and only sets the root's entry
  to \<^verbatim>\<open>NULL\<close>; the counter of zapped roots stays exact; and when every other entry is
  zapped already, \<^verbatim>\<open>zapRootDirPath\<close> ends the process with \<^verbatim>\<open>exit(EXIT_SUCCESS)\<close>, also
  when it is reached from the event for a deleted or moved root.
\<close>

theorem zapRootDirPath_keeps_slot_and_last_zap_exits:
  assumes inv: "roots_inv st" and root: "findRootDirPath st p = Some j"
  shows "(case zapRootDirPath st p of
            Inr st1 \<Rightarrow>
              rootDirPaths st1 = (rootDirPaths st)[j := None] \<and>
              length (rootDirPaths st1) = length (rootDirPaths st) \<and>
              roots_inv st1 \<and> (\<exists>q. Some q \<in> set (rootDirPaths st1)) \<and>
              wlCache st1 = wlCache st
          | Inl (h, st1) \<Rightarrow>
              h = Exit_Success \<and>
              rootDirPaths st1 = (rootDirPaths st)[j := None] \<and>
              length (rootDirPaths st1) = length (rootDirPaths st) \<and>
              (\<forall>r\<in>set (rootDirPaths st1). r = None)) \<and>
         ((\<forall>i<length (rootDirPaths st). i \<noteq> j \<longrightarrow> rootDirPaths st ! i = None) \<longrightarrow>
            (\<exists>st1. zapRootDirPath st p = Inl (Exit_Success, st1)) \<and>
            (\<forall>e fd ev rest bufSize firstTry slot.
               (ev_mask ev = IN_DELETE_SELF \<or> ev_mask ev = IN_MOVE_SELF) \<and>
               ev_wd ev \<noteq> -1 \<and> findWatch st (ev_wd ev) = Some slot \<and>
               path (wlCache st ! slot) = p \<longrightarrow>
               (\<exists>st1. processNextInotifyEvent e st fd ev rest bufSize firstTry
                        = Inl (Exit_Success, st1))))"
proof -
  from root have j: "j < length (rootDirPaths st)" "rootDirPaths st ! j = Some p"
    using first_index_SomeD [of "\<lambda>r. r = Some p" "rootDirPaths st" j]
    by (auto simp: findRootDirPath_def)
  let ?rs = "(rootDirPaths st)[j := None]"
  have cnt: "length (filter (\<lambda>r. r = None) ?rs) = Suc (ignoreRootDirs st)"
    using filter_None_update [OF j] inv by (simp add: roots_inv_def)
  have part1: "case zapRootDirPath st p of
            Inr st1 \<Rightarrow>
              rootDirPaths st1 = ?rs \<and>
              length (rootDirPaths st1) = length (rootDirPaths st) \<and>
              roots_inv st1 \<and> (\<exists>q. Some q \<in> set (rootDirPaths st1)) \<and>
              wlCache st1 = wlCache st
          | Inl (h, st1) \<Rightarrow>
              h = Exit_Success \<and> rootDirPaths st1 = ?rs \<and>
              length (rootDirPaths st1) = length (rootDirPaths st) \<and>
              (\<forall>r\<in>set (rootDirPaths st1). r = None)"
  proof (cases "Suc (ignoreRootDirs st) = length (rootDirPaths st)")
    case True
    then have "\<forall>r\<in>set ?rs. r = None"
      using cnt count_None_all [of ?rs] by simp
    with True root show ?thesis
      by (simp add: zapRootDirPath_def Let_def)
  next
    case False
    then have "\<not> (\<forall>r\<in>set ?rs. r = None)"
      using cnt count_None_all [of ?rs] by simp
    then obtain q where "Some q \<in> set ?rs" by (metis not_None_eq)
    with False root cnt show ?thesis
      by (auto simp: zapRootDirPath_def Let_def roots_inv_def)
  qed
  have part2: "(\<exists>st1. zapRootDirPath st p = Inl (Exit_Success, st1)) \<and>
            (\<forall>e fd ev rest bufSize firstTry slot.
               (ev_mask ev = IN_DELETE_SELF \<or> ev_mask ev = IN_MOVE_SELF) \<and>
               ev_wd ev \<noteq> -1 \<and> findWatch st (ev_wd ev) = Some slot \<and>
               path (wlCache st ! slot) = p \<longrightarrow>
               (\<exists>st1. processNextInotifyEvent e st fd ev rest bufSize firstTry
                        = Inl (Exit_Success, st1)))"
    if last: "\<forall>i<length (rootDirPaths st). i \<noteq> j \<longrightarrow> rootDirPaths st ! i = None"
  proof -
    have "\<forall>i<length ?rs. ?rs ! i = None"
      using last j(1) by (auto simp: nth_list_update)
    then have "\<forall>r\<in>set ?rs. r = None"
      by (metis in_set_conv_nth)
    then have full: "Suc (ignoreRootDirs st) = length (rootDirPaths st)"
      using cnt count_None_all [of ?rs] by simp
    then obtain st1 where zap: "zapRootDirPath st p = Inl (Exit_Success, st1)"
      using root by (simp add: zapRootDirPath_def Let_def)
    have isroot: "isRootDirPath st p"
      using root by (simp add: isRootDirPath_def)
    have "processNextInotifyEvent e st fd ev rest bufSize firstTry = Inl (Exit_Success, st1)"
      if ev: "ev_mask ev = IN_DELETE_SELF \<or> ev_mask ev = IN_MOVE_SELF"
        "ev_wd ev \<noteq> -1" "findWatch st (ev_wd ev) = Some slot" "path (wlCache st ! slot) = p"
      for e fd ev rest bufSize firstTry slot
      using ev(1)
    proof
      assume "ev_mask ev = IN_DELETE_SELF"
      with ev(2-4) zap isroot show ?thesis
        by (simp add: processNextInotifyEvent_def findWatchChecked_def dispatch_event_def
            in_mask_defs)
    next
      assume "ev_mask ev = IN_MOVE_SELF"
      with ev(2-4) zap isroot show ?thesis
        by (simp add: processNextInotifyEvent_def findWatchChecked_def dispatch_event_def
            in_mask_defs)
    qed
    with zap show ?thesis by blast
  qed
  from part1 part2 show ?thesis by blast
qed

theorem zapRootDirPath_keeps_slot_and_last_zap_exits_witness:
  "roots_inv nested_state \<and> findRootDirPath nested_state ''/a/b'' = Some 1 \<and>
   (case zapRootDirPath nested_state ''/a/b'' of
      Inr st1 \<Rightarrow> rootDirPaths st1 = [Some ''/a'', None] \<and> roots_inv st1
    | Inl (h, st1) \<Rightarrow> False) \<and>
   roots_inv tree_state \<and> findRootDirPath tree_state ''/r'' = Some 0 \<and>
   (\<exists>st1. processNextInotifyEvent quiet_env tree_state 3 deleted_self_1 [] 16 True
            = Inl (Exit_Success, st1))"
proof -
  have a1: "roots_inv nested_state"
    by (simp add: roots_inv_def nested_state_def)
  have a2: "findRootDirPath nested_state ''/a/b'' = Some 1"
    by (simp add: findRootDirPath_def nested_state_def)
  have b1: "roots_inv tree_state"
    by (simp add: roots_inv_def tree_state_def)
  have b2: "findRootDirPath tree_state ''/r'' = Some 0"
    by (simp add: findRootDirPath_def tree_state_def)
  have inr: "\<exists>st1. zapRootDirPath nested_state ''/a/b'' = Inr st1"
    by (simp add: zapRootDirPath_def findRootDirPath_def nested_state_def Let_def)
  have last: "\<forall>i<length (rootDirPaths tree_state). i \<noteq> 0 \<longrightarrow> rootDirPaths tree_state ! i = None"
    by (simp add: tree_state_def)
  have ev: "(ev_mask deleted_self_1 = IN_DELETE_SELF \<or> ev_mask deleted_self_1 = IN_MOVE_SELF) \<and>
            ev_wd deleted_self_1 \<noteq> -1 \<and> findWatch tree_state (ev_wd deleted_self_1) = Some 0 \<and>
            path (wlCache tree_state ! 0) = ''/r''"
    by (simp add: deleted_self_1_def findWatch_def tree_state_def)
  from zapRootDirPath_keeps_slot_and_last_zap_exits [OF a1 a2] inr
  have c1: "case zapRootDirPath nested_state ''/a/b'' of
      Inr st1 \<Rightarrow> rootDirPaths st1 = [Some ''/a'', None] \<and> roots_inv st1
    | Inl (h, st1) \<Rightarrow> False"
    by (auto simp: nested_state_def)
  from zapRootDirPath_keeps_slot_and_last_zap_exits [OF b1 b2] last ev
  have c2: "\<exists>st1. processNextInotifyEvent quiet_env tree_state 3 deleted_self_1 [] 16 True
            = Inl (Exit_Success, st1)"
    by blast
  from a1 a2 b1 b2 c1 c2 show ?thesis by blast
qed

section \<open>A new directory that is already cached\<close>

text \<open>
  C9, the claim as stated fails: event processing can leave two slots in use with the
  same path, and a "moved to" event whose full path is cached does change the cache
  when it is consumed together with its "moved from" event. Below \<open>/r/x\<close> is renamed
  onto the cached empty directory \<open>/r/a\<close>: the "moved to" event names the cached path
  \<open>/r/a\<close>, the cached paths were distinct, and after the step \<open>/r/a\<close> is the path of
  two slots in use.
\<close>

theorem rename_onto_cached_path_counterexample:
  "distinct (active_paths target_state) \<and>
   dir_created moved_to_a \<and>
   pathnameInCache target_state
     (snprintf_slash (PATH_MAX + NAME_MAX) (path (wlCache target_state ! 0)) (ev_name moved_to_a)) \<and>
   wlCache (final_state (processNextInotifyEvent quiet_env target_state 3
              moved_from_x [moved_to_a] 64 True))
     = [\<lparr>wd = 1, path = ''/r''\<rparr>, \<lparr>wd = 2, path = ''/r/a''\<rparr>,
        \<lparr>wd = 3, path = ''/r/a/b''\<rparr>, \<lparr>wd = 4, path = ''/r/a''\<rparr>] \<and>
   wlCache (final_state (processNextInotifyEvent quiet_env target_state 3
              moved_from_x [moved_to_a] 64 True)) \<noteq> wlCache target_state \<and>
   \<not> distinct (active_paths (final_state (processNextInotifyEvent quiet_env target_state 3
              moved_from_x [moved_to_a] 64 True)))"
  by (simp add: target_state_def moved_from_x_def moved_to_a_def quiet_env_def
      active_paths_def dir_created_def Let_def
      step_defs cache_defs string_defs in_mask_defs)

text \<open>
  C9, as amended: when a step is dispatched on a directory event with \<^verbatim>\<open>IN_CREATE\<close> or
  \<^verbatim>\<open>IN_MOVED_TO\<close> (for a watch that is cached) and the full path of the new directory is
  the path of a slot in use, the cache, the roots and the watches are left as they
  are: no walk and no insertion is made, the trace grows at most by the optional dump.
  When the full path is not cached the step is the walk of the new subtree. (A
  "moved to" event consumed with its "moved from" event is not dispatched on its own;
  it goes through the rewrite.)
\<close>

theorem created_directory_already_cached:
  assumes cr: "dir_created ev" and slot: "findWatch st (ev_wd ev) = Some slot"
    and fp: "fullPath = snprintf_slash (PATH_MAX + NAME_MAX) (path (wlCache st ! slot)) (ev_name ev)"
    and res: "st' = final_state (processNextInotifyEvent e st fd ev rest bufSize firstTry)"
  shows "(pathnameInCache st fullPath \<longrightarrow>
            processNextInotifyEvent e st fd ev rest bufSize firstTry
              = finish e st fd (event_size ev) \<and>
            wlCache st' = wlCache st \<and> rootDirPaths st' = rootDirPaths st \<and>
            (trace st' = trace st \<or>
             trace st' = trace st @ [A_dump (active_entries (wlCache st))])) \<and>
         (\<not> pathnameInCache st fullPath \<longrightarrow>
            processNextInotifyEvent e st fd ev rest bufSize firstTry
              = (case watchSubtree e st fd fullPath of
                   Inl h \<Rightarrow> Inl h
                 | Inr st1 \<Rightarrow> finish e st1 fd (event_size ev)))"
proof -
  from cr have m: "ev_wd ev \<noteq> -1" "ev_mask ev AND IN_IGNORED = 0"
    "ev_mask ev AND IN_ISDIR \<noteq> 0" "ev_mask ev AND (IN_CREATE OR IN_MOVED_TO) \<noteq> 0"
    by (simp_all add: dir_created_def)
  have step: "processNextInotifyEvent e st fd ev rest bufSize firstTry
              = (if \<not> pathnameInCache st fullPath
                 then (case watchSubtree e st fd fullPath of
                         Inl h \<Rightarrow> Inl h
                       | Inr st1 \<Rightarrow> finish e st1 fd (event_size ev))
                 else finish e st fd (event_size ev))"
    using processNext_found [OF m(1,2) slot, of e fd rest bufSize firstTry] m(3,4) fp
    by (simp add: dispatch_event_def Let_def)
  have cached: "processNextInotifyEvent e st fd ev rest bufSize firstTry
              = finish e st fd (event_size ev) \<and>
            wlCache st' = wlCache st \<and> rootDirPaths st' = rootDirPaths st \<and>
            (trace st' = trace st \<or>
             trace st' = trace st @ [A_dump (active_entries (wlCache st))])"
    if "pathnameInCache st fullPath"
    using that step res finish_frame [of e st fd "event_size ev"] by simp
  from cached step show ?thesis by simp
qed

theorem created_directory_already_cached_witness:
  "dir_created created_AB \<and> findWatch tree_state (ev_wd created_AB) = Some 0 \<and>
   pathnameInCache tree_state ''/r/AB'' \<and>
   processNextInotifyEvent quiet_env tree_state 3 created_AB [] 32 True
     = Inr (tree_state, 3, 32) \<and>
   dir_created created_Z \<and> \<not> pathnameInCache tree_state ''/r/Z'' \<and>
   processNextInotifyEvent quiet_env tree_state 3 created_Z [] 32 True
     = Inr (tree_state, 3, 32)"
proof -
  have h1: "dir_created created_AB"
    by (simp add: dir_created_def created_AB_def in_mask_defs)
  have h2: "findWatch tree_state (ev_wd created_AB) = Some 0"
    by (simp add: findWatch_def tree_state_def created_AB_def)
  have h3: "''/r/AB'' = snprintf_slash (PATH_MAX + NAME_MAX) (path (wlCache tree_state ! 0))
                          (ev_name created_AB)"
    by (simp add: tree_state_def created_AB_def string_defs)
  have h4: "pathnameInCache tree_state ''/r/AB''"
    by (simp add: tree_state_def cache_defs)
  have g1: "dir_created created_Z"
    by (simp add: dir_created_def created_Z_def in_mask_defs)
  have g2: "findWatch tree_state (ev_wd created_Z) = Some 0"
    by (simp add: findWatch_def tree_state_def created_Z_def)
  have g3: "''/r/Z'' = snprintf_slash (PATH_MAX + NAME_MAX) (path (wlCache tree_state ! 0))
                          (ev_name created_Z)"
    by (simp add: tree_state_def created_Z_def string_defs)
  have g4: "\<not> pathnameInCache tree_state ''/r/Z''"
    by (simp add: tree_state_def cache_defs)
  have fin: "finish quiet_env tree_state 3 n = Inr (tree_state, 3, n)" for n
    by (simp add: finish_def tree_state_def)
  have sz: "event_size created_AB = 32" "event_size created_Z = 32"
    by (simp_all add: event_size_def sizeof_inotify_event_def created_AB_def created_Z_def)
  have walk: "watchSubtree quiet_env tree_state 3 ''/r/Z'' = Inr tree_state"
    by (simp add: watchSubtree_def watchDir_def quiet_env_def)
  from created_directory_already_cached [OF h1 h2 h3 refl, where e = quiet_env and fd = 3
      and rest = "[]" and bufSize = 32 and firstTry = True] h4 fin sz
  have c1: "processNextInotifyEvent quiet_env tree_state 3 created_AB [] 32 True
     = Inr (tree_state, 3, 32)"
    by simp
  from created_directory_already_cached [OF g1 g2 g3 refl, where e = quiet_env and fd = 3
      and rest = "[]" and bufSize = 32 and firstTry = True] g4 fin sz walk
  have c2: "processNextInotifyEvent quiet_env tree_state 3 created_Z [] 32 True
     = Inr (tree_state, 3, 32)"
    by simp
  from h1 h2 h4 c1 g1 g4 c2 show ?thesis by blast
qed

section \<open>The frame of an in-tree rename\<close>

text \<open>
  C10, the claim as stated fails: the old full path is built in a buffer of
  \<open>PATH_MAX\<close> bytes, and the match is made against what that buffer holds. Below, the
  cached directory \<open>p\<close> has a pathname of \<open>PATH_MAX - 3\<close> characters and a cached
  child \<open>p/k\<close>. The in-tree rename of its child \<open>kk\<close> to \<open>m\<close> has the old full path
  \<open>p/kk\<close> of \<open>PATH_MAX\<close> characters, which the buffer cuts to \<open>p/k\<close>: the slot of
  \<open>p/k\<close>, whose path does not match the old prefix \<open>p/kk\<close>, gets the path \<open>p/m\<close>.
\<close>

theorem rename_rewrites_non_matching_path_counterexample:
  "dir_moved_from moved_from_kk \<and> next_matches moved_from_kk moved_to_m \<and>
   path (wlCache deep_state ! 0) @ ''/'' @ ev_name moved_from_kk
     = ''/'' @ replicate 4092 CHR ''d'' @ ''/kk'' \<and>
   path (wlCache deep_state ! 1) = ''/'' @ replicate 4092 CHR ''d'' @ ''/k'' \<and>
   \<not> lies_under (''/'' @ replicate 4092 CHR ''d'' @ ''/kk'') (path (wlCache deep_state ! 1)) \<and>
   \<not> prefix_match (''/'' @ replicate 4092 CHR ''d'' @ ''/kk'') (path (wlCache deep_state ! 1)) \<and>
   path (wlCache (final_state (processNextInotifyEvent quiet_env deep_state 3
           moved_from_kk [moved_to_m] 64 True)) ! 1)
     = ''/'' @ replicate 4092 CHR ''d'' @ ''/m'' \<and>
   wlCache (final_state (processNextInotifyEvent quiet_env deep_state 3
           moved_from_kk [moved_to_m] 64 True)) ! 1
     \<noteq> wlCache deep_state ! 1"
  by (simp add: deep_state_def moved_from_kk_def moved_to_m_def quiet_env_def
      dir_moved_from_def next_matches_def lies_under_def
      step_defs cache_defs string_defs in_mask_defs)

text \<open>
  C10, as amended: the rewrite of cached paths never changes anything but \<open>path\<close>
  fields: the cache keeps its length, every slot keeps its watch descriptor (so the
  same slots are in use), and the root list, the counter of zapped roots and the trace
  of system calls are unchanged. When the old full path is shorter than \<open>PATH_MAX\<close>,
  a slot whose path does not match the old prefix (is neither the old full path nor a
  continuation of it after a \<open>/\<close>) is unchanged; in general the slots left unchanged
  are those whose path does not match the first \<open>PATH_MAX - 1\<close> characters of the
  old full path. A step that handles an in-tree rename (a directory "moved from" event
  followed by its "moved to" event, both watch descriptors cached) ends in such a
  state: no \<^verbatim>\<open>inotify_add_watch\<close> and no \<^verbatim>\<open>inotify_rm_watch\<close> is made, the trace
  grows at most by the optional dump of the cache. Cached paths are C strings: they
  contain no NUL character.
\<close>

theorem in_tree_rename_frame:
  assumes mf: "dir_moved_from ev" and slot: "findWatch st (ev_wd ev) = Some slot"
    and nx: "int (event_size ev) < bufSize" "rest = nextEv # later" "next_matches ev nextEv"
    and slot2: "findWatch st (ev_wd nextEv) = Some slot2"
    and res: "st' = final_state (processNextInotifyEvent e st fd ev rest bufSize firstTry)"
    and old: "old = path (wlCache st ! slot) @ ''/'' @ ev_name ev"
    and nul: "\<forall>w\<in>set (wlCache st). CHR 0x00 \<notin> set (path w)"
    and rw: "st'' = rewriteCachedPaths st oldP oldN newP newN"
  shows "(length (wlCache st'') = length (wlCache st) \<and>
          map wd (wlCache st'') = map wd (wlCache st) \<and>
          (\<forall>j<length (wlCache st).
              \<not> prefix_match (snprintf_slash PATH_MAX oldP oldN) (path (wlCache st ! j))
              \<longrightarrow> wlCache st'' ! j = wlCache st ! j) \<and>
          (length (oldP @ ''/'' @ oldN) < PATH_MAX \<longrightarrow>
             (\<forall>j<length (wlCache st).
                 \<not> lies_under (oldP @ ''/'' @ oldN) (path (wlCache st ! j))
                 \<longrightarrow> wlCache st'' ! j = wlCache st ! j)) \<and>
          rootDirPaths st'' = rootDirPaths st \<and> ignoreRootDirs st'' = ignoreRootDirs st \<and>
          trace st'' = trace st) \<and>
         (length (wlCache st') = length (wlCache st) \<and>
          map wd (wlCache st') = map wd (wlCache st) \<and>
          (\<forall>j<length (wlCache st).
              \<not> prefix_match (snprintf_slash PATH_MAX (path (wlCache st ! slot)) (ev_name ev))
                   (path (wlCache st ! j))
              \<longrightarrow> wlCache st' ! j = wlCache st ! j) \<and>
          (length old < PATH_MAX \<longrightarrow>
             (\<forall>j<length (wlCache st).
                 \<not> lies_under old (path (wlCache st ! j))
                 \<longrightarrow> wlCache st' ! j = wlCache st ! j)) \<and>
          rootDirPaths st' = rootDirPaths st \<and> ignoreRootDirs st' = ignoreRootDirs st \<and>
          (trace st' = trace st \<or>
           trace st' = trace st @ [A_dump (active_entries (wlCache st'))]))"
proof -
  have frame: "length (wlCache (rewriteCachedPaths st a b c d)) = length (wlCache st) \<and>
          map wd (wlCache (rewriteCachedPaths st a b c d)) = map wd (wlCache st) \<and>
          (\<forall>j<length (wlCache st).
              \<not> prefix_match (snprintf_slash PATH_MAX a b) (path (wlCache st ! j))
              \<longrightarrow> wlCache (rewriteCachedPaths st a b c d) ! j = wlCache st ! j) \<and>
          (length (a @ ''/'' @ b) < PATH_MAX \<longrightarrow>
             (\<forall>j<length (wlCache st).
                 \<not> lies_under (a @ ''/'' @ b) (path (wlCache st ! j))
                 \<longrightarrow> wlCache (rewriteCachedPaths st a b c d) ! j = wlCache st ! j)) \<and>
          rootDirPaths (rewriteCachedPaths st a b c d) = rootDirPaths st \<and>
          ignoreRootDirs (rewriteCachedPaths st a b c d) = ignoreRootDirs st \<and>
          trace (rewriteCachedPaths st a b c d) = trace st" for a b c d
  proof -
    have cut: "\<forall>j<length (wlCache st).
              \<not> prefix_match (snprintf_slash PATH_MAX a b) (path (wlCache st ! j))
              \<longrightarrow> wlCache (rewriteCachedPaths st a b c d) ! j = wlCache st ! j"
      by (simp add: rewriteCachedPaths_def Let_def)
    have whole: "\<forall>j<length (wlCache st).
                 \<not> lies_under (a @ ''/'' @ b) (path (wlCache st ! j))
                 \<longrightarrow> wlCache (rewriteCachedPaths st a b c d) ! j = wlCache st ! j"
      if fit: "length (a @ ''/'' @ b) < PATH_MAX"
    proof (intro allI impI)
      fix j assume j: "j < length (wlCache st)"
        and nl: "\<not> lies_under (a @ ''/'' @ b) (path (wlCache st ! j))"
      from j nul have "CHR 0x00 \<notin> set (path (wlCache st ! j))" by simp
      with nl have "\<not> prefix_match (a @ ''/'' @ b) (path (wlCache st ! j))"
        by (simp add: prefix_match_iff)
      with fit have "\<not> prefix_match (snprintf_slash PATH_MAX a b) (path (wlCache st ! j))"
        by (simp add: snprintf_slash_fits)
      with cut j show "wlCache (rewriteCachedPaths st a b c d) ! j = wlCache st ! j"
        by blast
    qed
    from cut whole rewriteCachedPaths_frame [of st a b c d] show ?thesis by blast
  qed
  let ?rw = "rewriteCachedPaths st (path (wlCache st ! slot)) (ev_name ev)
               (path (wlCache st ! slot2)) (ev_name nextEv)"
  have step: "processNextInotifyEvent e st fd ev rest bufSize firstTry
              = finish e ?rw fd (event_size ev + event_size nextEv)"
    using process_dir_moved_from [OF mf slot] moved_from_in_tree [OF nx slot2] by simp
  have fin: "wlCache st' = wlCache ?rw \<and> rootDirPaths st' = rootDirPaths ?rw \<and>
             ignoreRootDirs st' = ignoreRootDirs ?rw \<and>
             (trace st' = trace ?rw \<or>
              trace st' = trace ?rw @ [A_dump (active_entries (wlCache ?rw))])"
    using finish_frame [of e ?rw fd "event_size ev + event_size nextEv"] res step by simp
  from frame [of oldP oldN newP newN] rw
  have first: "length (wlCache st'') = length (wlCache st) \<and>
          map wd (wlCache st'') = map wd (wlCache st) \<and>
          (\<forall>j<length (wlCache st).
              \<not> prefix_match (snprintf_slash PATH_MAX oldP oldN) (path (wlCache st ! j))
              \<longrightarrow> wlCache st'' ! j = wlCache st ! j) \<and>
          (length (oldP @ ''/'' @ oldN) < PATH_MAX \<longrightarrow>
             (\<forall>j<length (wlCache st).
                 \<not> lies_under (oldP @ ''/'' @ oldN) (path (wlCache st ! j))
                 \<longrightarrow> wlCache st'' ! j = wlCache st ! j)) \<and>
          rootDirPaths st'' = rootDirPaths st \<and> ignoreRootDirs st'' = ignoreRootDirs st \<and>
          trace st'' = trace st"
    by simp
  from frame [of "path (wlCache st ! slot)" "ev_name ev" "path (wlCache st ! slot2)"
      "ev_name nextEv"] fin old
  have second: "length (wlCache st') = length (wlCache st) \<and>
          map wd (wlCache st') = map wd (wlCache st) \<and>
          (\<forall>j<length (wlCache st).
              \<not> prefix_match (snprintf_slash PATH_MAX (path (wlCache st ! slot)) (ev_name ev))
                   (path (wlCache st ! j))
              \<longrightarrow> wlCache st' ! j = wlCache st ! j) \<and>
          (length old < PATH_MAX \<longrightarrow>
             (\<forall>j<length (wlCache st).
                 \<not> lies_under old (path (wlCache st ! j))
                 \<longrightarrow> wlCache st' ! j = wlCache st ! j)) \<and>
          rootDirPaths st' = rootDirPaths st \<and> ignoreRootDirs st' = ignoreRootDirs st \<and>
          (trace st' = trace st \<or>
           trace st' = trace st @ [A_dump (active_entries (wlCache st'))])"
    by auto
  from first second show ?thesis by blast
qed

theorem in_tree_rename_frame_witness:
  "dir_moved_from moved_from_A \<and> findWatch tree_state (ev_wd moved_from_A) = Some 0 \<and>
   next_matches moved_from_A moved_to_B \<and>
   length (path (wlCache tree_state ! 0) @ ''/'' @ ev_name moved_from_A) < PATH_MAX \<and>
   \<not> lies_under (path (wlCache tree_state ! 0) @ ''/'' @ ev_name moved_from_A)
       (path (wlCache tree_state ! 3)) \<and>
   map wd (wlCache (final_state (processNextInotifyEvent quiet_env tree_state 3
                       moved_from_A [moved_to_B] 64 True))) = [1, 2, 3, 4] \<and>
   wlCache (final_state (processNextInotifyEvent quiet_env tree_state 3
                       moved_from_A [moved_to_B] 64 True)) ! 3 = \<lparr>wd = 4, path = ''/r/AB''\<rparr> \<and>
   wlCache (final_state (processNextInotifyEvent quiet_env tree_state 3
                       moved_from_A [moved_to_B] 64 True)) ! 0 = \<lparr>wd = 1, path = ''/r''\<rparr> \<and>
   trace (final_state (processNextInotifyEvent quiet_env tree_state 3
                       moved_from_A [moved_to_B] 64 True)) = []"
proof -
  have h1: "dir_moved_from moved_from_A"
    by (simp add: dir_moved_from_def moved_from_A_def in_mask_defs)
  have h2: "findWatch tree_state (ev_wd moved_from_A) = Some 0"
    by (simp add: findWatch_def tree_state_def moved_from_A_def)
  have h3: "int (event_size moved_from_A) < 64"
    by (simp add: event_size_def sizeof_inotify_event_def moved_from_A_def)
  have h4: "next_matches moved_from_A moved_to_B"
    by (simp add: next_matches_def moved_from_A_def moved_to_B_def in_mask_defs)
  have h5: "findWatch tree_state (ev_wd moved_to_B) = Some 0"
    by (simp add: findWatch_def tree_state_def moved_to_B_def)
  have nul: "\<forall>w\<in>set (wlCache tree_state). CHR 0x00 \<notin> set (path w)"
    by (simp add: tree_state_def)
  have fit: "length (path (wlCache tree_state ! 0) @ ''/'' @ ev_name moved_from_A) < PATH_MAX"
    by (simp add: tree_state_def moved_from_A_def PATH_MAX_def)
  have nomatch3: "\<not> lies_under (path (wlCache tree_state ! 0) @ ''/'' @ ev_name moved_from_A)
                       (path (wlCache tree_state ! 3))"
    by (simp add: tree_state_def moved_from_A_def lies_under_def)
  have nomatch0: "\<not> lies_under (path (wlCache tree_state ! 0) @ ''/'' @ ev_name moved_from_A)
                       (path (wlCache tree_state ! 0))"
    by (simp add: tree_state_def moved_from_A_def lies_under_def)
  have len: "(3::nat) < length (wlCache tree_state)" "(0::nat) < length (wlCache tree_state)"
    by (simp_all add: tree_state_def)
  note inst = in_tree_rename_frame [OF h1 h2 h3 refl h4 h5 refl refl nul refl,
      where e = quiet_env and fd = 3 and later = "[]" and firstTry = True
        and oldP = "''/r''" and oldN = "''A''" and newP = "''/r''" and newN = "''B''"]
  from inst have wds: "map wd (wlCache (final_state (processNextInotifyEvent quiet_env tree_state 3
                       moved_from_A [moved_to_B] 64 True))) = [1, 2, 3, 4]"
    by (simp add: tree_state_def)
  from inst fit have unch: "\<forall>j<length (wlCache tree_state).
      \<not> lies_under (path (wlCache tree_state ! 0) @ ''/'' @ ev_name moved_from_A)
          (path (wlCache tree_state ! j))
      \<longrightarrow> wlCache (final_state (processNextInotifyEvent quiet_env tree_state 3
                       moved_from_A [moved_to_B] 64 True)) ! j = wlCache tree_state ! j"
    by blast
  from unch nomatch3 len(1) have "wlCache (final_state (processNextInotifyEvent quiet_env
      tree_state 3 moved_from_A [moved_to_B] 64 True)) ! 3 = wlCache tree_state ! 3"
    by blast
  then have slot3: "wlCache (final_state (processNextInotifyEvent quiet_env
      tree_state 3 moved_from_A [moved_to_B] 64 True)) ! 3 = \<lparr>wd = 4, path = ''/r/AB''\<rparr>"
    by (simp add: tree_state_def)
  from unch nomatch0 len(2) have "wlCache (final_state (processNextInotifyEvent quiet_env
      tree_state 3 moved_from_A [moved_to_B] 64 True)) ! 0 = wlCache tree_state ! 0"
    by blast
  then have slot0: "wlCache (final_state (processNextInotifyEvent quiet_env
      tree_state 3 moved_from_A [moved_to_B] 64 True)) ! 0 = \<lparr>wd = 1, path = ''/r''\<rparr>"
    by (simp add: tree_state_def)
  have tr: "trace (final_state (processNextInotifyEvent quiet_env tree_state 3
                       moved_from_A [moved_to_B] 64 True)) = []"
    by (simp add: tree_state_def moved_from_A_def moved_to_B_def quiet_env_def
        step_defs cache_defs string_defs in_mask_defs)
  from h1 h2 h4 fit nomatch3 wds slot3 slot0 tr show ?thesis by blast
qed

end
